theory Spec2Isabelle
  imports Main
begin

section \<open>Text\<close>

text \<open>
  A Python \<open>str\<close> is a sequence of Unicode code points; a code point is a
  natural number here, so that the whitespace and line-boundary classes of the
  interpreter are the ones of the model. \<open>str\<close> embeds an ASCII literal.
\<close>

type_synonym cp = nat
type_synonym pystr = "cp list"

definition str :: "string \<Rightarrow> pystr" where
  "str s = map of_char s"

definition LF :: cp where "LF = 10"
definition CR :: cp where "CR = 13"
definition backslash :: cp where "backslash = 92"

definition is_space :: "cp \<Rightarrow> bool" where
  \<comment> \<open>the class \<open>\s\<close> of \<open>re\<close> on \<open>str\<close> patterns: \<open>str.isspace\<close>\<close>
  "is_space c =
     ((9 \<le> c \<and> c \<le> 13) \<or> (28 \<le> c \<and> c \<le> 32) \<or> c = 133 \<or> c = 160 \<or> c = 5760 \<or>
      (8192 \<le> c \<and> c \<le> 8202) \<or> c = 8232 \<or> c = 8233 \<or> c = 8239 \<or> c = 8287 \<or> c = 12288)"

definition is_linebreak :: "cp \<Rightarrow> bool" where
  \<comment> \<open>the line boundaries of \<open>str.splitlines\<close>\<close>
  "is_linebreak c =
     ((10 \<le> c \<and> c \<le> 13) \<or> (28 \<le> c \<and> c \<le> 30) \<or> c = 133 \<or> c = 8232 \<or> c = 8233)"

fun splitlines_from :: "pystr \<Rightarrow> pystr \<Rightarrow> pystr list" where
  \<comment> \<open>\<open>str.splitlines()\<close>: the first argument is the line read so far; CR LF is one
      boundary, and a final boundary opens no empty last line\<close>
  "splitlines_from cur [] = (if cur = [] then [] else [cur])"
| "splitlines_from cur (c # cs) =
     (if c = CR \<and> cs \<noteq> [] \<and> hd cs = LF then cur # splitlines_from [] (tl cs)
      else if is_linebreak c then cur # splitlines_from [] cs
      else splitlines_from (cur @ [c]) cs)"

definition splitlines :: "pystr \<Rightarrow> pystr list" where
  "splitlines s = splitlines_from [] s"

section \<open>The line regex and the tokens\<close>

definition at_dollar :: "pystr \<Rightarrow> bool" where
  \<comment> \<open>\<open>$\<close> without MULTILINE: at the end, or before a final newline\<close>
  "at_dollar rest = (rest = [] \<or> rest = [LF])"

definition try_indent :: "nat \<Rightarrow> pystr \<Rightarrow> (pystr \<times> pystr) option" where
  \<comment> \<open>\<open>^(\s*)(.*)$\<close> with \<open>\s*\<close> taking \<open>k\<close> characters: \<open>.*\<close> is greedy over the
      characters other than newline, and only its longest run can reach \<open>$\<close>\<close>
  "try_indent k line =
     (let r = drop k line in
      if at_dollar (dropWhile (\<lambda>c. c \<noteq> LF) r)
      then Some (take k line, takeWhile (\<lambda>c. c \<noteq> LF) r) else None)"

fun first_indent :: "nat \<Rightarrow> pystr \<Rightarrow> (pystr \<times> pystr) option" where
  \<comment> \<open>the backtracking of the greedy \<open>\s*\<close>: longest indentation first\<close>
  "first_indent 0 line = try_indent 0 line"
| "first_indent (Suc k) line =
     (case try_indent (Suc k) line of Some g \<Rightarrow> Some g | None \<Rightarrow> first_indent k line)"

definition line_match :: "pystr \<Rightarrow> (pystr \<times> pystr) option" where
  \<comment> \<open>\<open>re.match(r'^(\s*)(.*)$', line)\<close> and \<open>m.groups()\<close>\<close>
  "line_match line = first_indent (length (takeWhile is_space line)) line"

fun re_split_ws :: "bool \<Rightarrow> pystr \<Rightarrow> pystr \<Rightarrow> pystr list" where
  \<comment> \<open>\<open>re.split(r'\s+', content)\<close>: the flag says that the scan is inside a separator,
      the second argument is the piece read so far\<close>
  "re_split_ws insep cur [] = [cur]"
| "re_split_ws insep cur (c # cs) =
     (if is_space c
      then (if insep then re_split_ws True cur cs else cur # re_split_ws True [] cs)
      else re_split_ws False (cur @ [c]) cs)"

definition tokens_of :: "pystr \<Rightarrow> pystr list" where
  \<comment> \<open>\<open>[token for token in re.split(r'\s+', content) if token]\<close>\<close>
  "tokens_of content = filter (\<lambda>token. token \<noteq> []) (re_split_ws False [] content)"

section \<open>The pattern\<close>

text \<open>
  The pattern string is built from three kinds of pieces only: \<open>re.escape\<close> of a
  text, which the regex parser reads back as that text's characters, each a
  literal; \<open>\s+\<close>; and \<open>\r?\n\<close>. The pattern is kept as the list of these items.
  \<open>Star\<close> is \<open>\s+\<close> after its first character, a state of the engine.
\<close>

datatype atom = Lit cp | Spaces | OptCR | Star

definition re_escape :: "pystr \<Rightarrow> atom list" where
  "re_escape s = map Lit s"

definition newline_sep :: "atom list" where
  \<comment> \<open>\<open>r'\r?\n'\<close>\<close>
  "newline_sep = [OptCR, Lit LF]"

fun join_pattern :: "atom list \<Rightarrow> atom list list \<Rightarrow> atom list" where
  \<comment> \<open>\<open>sep.join(pattern_lines)\<close>\<close>
  "join_pattern sep [] = []"
| "join_pattern sep [p] = p"
| "join_pattern sep (p # q # ps) = p @ sep @ join_pattern sep (q # ps)"

definition pattern_line :: "pystr \<Rightarrow> atom list" where
  "pattern_line line =
     (case line_match line of
        Some (indent, content) \<Rightarrow>
          (let tokens = tokens_of content in
           if tokens \<noteq> []
           then re_escape indent @ re_escape (hd tokens) @
                concat (map (\<lambda>token. Spaces # re_escape token) (tl tokens))
           else re_escape indent)
      | None \<Rightarrow> re_escape line)"

definition flexible_pattern :: "pystr \<Rightarrow> atom list" where
  "flexible_pattern txt = join_pattern newline_sep (map pattern_line (splitlines txt))"

section \<open>The regex engine on these patterns\<close>

fun match_here :: "bool \<Rightarrow> nat \<Rightarrow> atom list \<Rightarrow> pystr \<Rightarrow> pystr option" where
  \<comment> \<open>the backtracking matcher at one position; the result is the text left after the
      match. With \<open>adv\<close> (must_advance) a match that leaves \<open>n0\<close> characters, the
      length at the start, is refused and the engine backtracks.\<close>
  "match_here adv n0 [] s = (if adv \<and> length s = n0 then None else Some s)"
| "match_here adv n0 (Lit c # p) [] = None"
| "match_here adv n0 (Lit c # p) (x # xs) = (if x = c then match_here adv n0 p xs else None)"
| "match_here adv n0 (OptCR # p) [] = match_here adv n0 p []"
| "match_here adv n0 (OptCR # p) (x # xs) =
     (if x = CR
      then (case match_here adv n0 p xs of Some r \<Rightarrow> Some r | None \<Rightarrow> match_here adv n0 p (x # xs))
      else match_here adv n0 p (x # xs))"
| "match_here adv n0 (Spaces # p) [] = None"
| "match_here adv n0 (Spaces # p) (x # xs) =
     (if is_space x then match_here adv n0 (Star # p) xs else None)"
| "match_here adv n0 (Star # p) [] = match_here adv n0 p []"
| "match_here adv n0 (Star # p) (x # xs) =
     (if is_space x
      then (case match_here adv n0 (Star # p) xs of Some r \<Rightarrow> Some r
            | None \<Rightarrow> match_here adv n0 p (x # xs))
      else match_here adv n0 p (x # xs))"

fun search_from :: "bool \<Rightarrow> atom list \<Rightarrow> pystr \<Rightarrow> (pystr \<times> pystr \<times> pystr) option" where
  \<comment> \<open>the scan of \<open>search\<close> over the start positions, leftmost first: the text skipped,
      the text matched, the text left. must_advance holds at the first position only.\<close>
  "search_from adv p [] =
     (case match_here adv 0 p [] of Some r \<Rightarrow> Some ([], [], []) | None \<Rightarrow> None)"
| "search_from adv p (x # xs) =
     (case match_here adv (Suc (length xs)) p (x # xs) of
        Some r \<Rightarrow> Some ([], take (Suc (length xs) - length r) (x # xs), r)
      | None \<Rightarrow>
          (case search_from False p xs of
             Some (skipped, m, r) \<Rightarrow> Some (x # skipped, m, r)
           | None \<Rightarrow> None))"

definition search :: "atom list \<Rightarrow> pystr \<Rightarrow> (nat \<times> nat) option" where
  \<comment> \<open>\<open>pattern.search(content)\<close>: \<open>match.start()\<close> and \<open>match.end()\<close>\<close>
  "search p s =
     (case search_from False p s of
        Some (skipped, m, r) \<Rightarrow> Some (length skipped, length skipped + length m)
      | None \<Rightarrow> None)"

section \<open>The replacement template\<close>

text \<open>
  \<open>pattern.subn(repl, string)\<close> takes \<open>repl\<close> as it is when it holds no backslash;
  otherwise the template compiler of \<open>re\<close> reads it before any matching is done. The
  patterns here have no group, so that only group 0, the whole match, can be referred
  to. \<open>TemplateError\<close> is the exception the compiler raises (\<open>re.error\<close>, or
  \<open>IndexError\<close> for an unknown group name).

  Two things are taken from the interpreter and the platform. In \<open>\g<name>\<close> a name in
  ASCII decimal digits is a group number for every interpreter; for any other name
  \<open>group_zero\<close> says whether the interpreter reads it as group 0: never from Python 3.12
  on, and before that where the name is no identifier and \<open>int(name)\<close> is 0 (a sign,
  blanks, underscores, other decimal digits). \<open>linesep\<close> is \<open>os.linesep\<close>.
\<close>

record python =
  group_zero :: "pystr \<Rightarrow> bool"
  linesep :: pystr

definition cpython :: python where
  \<comment> \<open>Python 3.12 or later on a POSIX platform\<close>
  "cpython = \<lparr>group_zero = (\<lambda>name. False), linesep = [LF]\<rparr>"

datatype py_error = TemplateError | OSError | UnicodeError

datatype titem = TChar cp | TMatch

definition is_digit :: "cp \<Rightarrow> bool" where
  "is_digit c = (48 \<le> c \<and> c \<le> 57)"

definition is_octdigit :: "cp \<Rightarrow> bool" where
  "is_octdigit c = (48 \<le> c \<and> c \<le> 55)"

definition is_ascii_letter :: "cp \<Rightarrow> bool" where
  "is_ascii_letter c = ((65 \<le> c \<and> c \<le> 90) \<or> (97 \<le> c \<and> c \<le> 122))"

definition escape_value :: "cp \<Rightarrow> cp option" where
  \<comment> \<open>the table ESCAPES: \<open>\a \b \f \n \r \t \v \\\<close>\<close>
  "escape_value c =
     (if c = 97 then Some 7 else if c = 98 then Some 8 else if c = 102 then Some 12
      else if c = 110 then Some 10 else if c = 114 then Some 13 else if c = 116 then Some 9
      else if c = 118 then Some 11 else if c = 92 then Some 92 else None)"

fun group_name :: "pystr \<Rightarrow> (pystr \<times> pystr) option" where
  \<comment> \<open>\<open>getuntil(">")\<close>: the name and the text after the \<open>>\<close>; a backslash and the
      character after it are one token\<close>
  "group_name [] = None"
| "group_name (c # cs) =
     (if c = 62 then Some ([], cs)
      else if c = backslash
      then (case cs of
              [] \<Rightarrow> None
            | d # ds \<Rightarrow> (case group_name ds of None \<Rightarrow> None | Some (n, r) \<Rightarrow> Some (c # d # n, r)))
      else (case group_name cs of None \<Rightarrow> None | Some (n, r) \<Rightarrow> Some (c # n, r)))"

definition group_index :: "python \<Rightarrow> pystr \<Rightarrow> nat option" where
  "group_index py name =
     (if name = [] then None
      else if list_all is_digit name then Some (foldl (\<lambda>n c. 10 * n + (c - 48)) 0 name)
      else if group_zero py name then Some 0
      else None)"

definition emit :: "titem list \<Rightarrow> py_error + titem list \<Rightarrow> py_error + titem list" where
  "emit items r = (case r of Inl e \<Rightarrow> Inl e | Inr t \<Rightarrow> Inr (items @ t))"

lemma group_name_shorter: "group_name cs = Some (n, r) \<Longrightarrow> length r < length cs"
proof (induction cs arbitrary: n r rule: group_name.induct)
  case 1
  then show ?case by simp
next
  case (2 c cs)
  then show ?case
    by (auto split: if_splits list.splits option.splits) fastforce+
qed

function parse_template :: "python \<Rightarrow> pystr \<Rightarrow> py_error + titem list" where
  "parse_template py [] = Inr []"
| "parse_template py (c # cs) =
     (if c \<noteq> backslash then emit [TChar c] (parse_template py cs)
      else case cs of
        [] \<Rightarrow> Inl TemplateError
      | d # ds \<Rightarrow>
          if d = 103 then
            (case ds of
               [] \<Rightarrow> Inl TemplateError
             | l # ns \<Rightarrow>
                 if l \<noteq> 60 then Inl TemplateError
                 else (case group_name ns of
                         None \<Rightarrow> Inl TemplateError
                       | Some (name, rest) \<Rightarrow>
                           if group_index py name = Some 0
                           then emit [TMatch] (parse_template py rest)
                           else Inl TemplateError))
          else if d = 48 then
            (case ds of
               [] \<Rightarrow> Inr [TChar 0]
             | e # es \<Rightarrow>
                 if is_octdigit e then
                   (case es of
                      [] \<Rightarrow> Inr [TChar (e - 48)]
                    | f # fs \<Rightarrow>
                        if is_octdigit f
                        then emit [TChar (8 * (e - 48) + (f - 48))] (parse_template py fs)
                        else emit [TChar (e - 48)] (parse_template py es))
                 else emit [TChar 0] (parse_template py ds))
          else if is_digit d then
            (case ds of
               e # f # fs \<Rightarrow>
                 if is_octdigit d \<and> is_octdigit e \<and> is_octdigit f
                 then (let v = 64 * (d - 48) + 8 * (e - 48) + (f - 48) in
                       if v > 255 then Inl TemplateError
                       else emit [TChar v] (parse_template py fs))
                 else Inl TemplateError
             | _ \<Rightarrow> Inl TemplateError)
          else
            (case escape_value d of
               Some v \<Rightarrow> emit [TChar v] (parse_template py ds)
             | None \<Rightarrow>
                 if is_ascii_letter d then Inl TemplateError
                 else emit [TChar c, TChar d] (parse_template py ds)))"
  by pat_completeness auto
termination
  by (relation "measure (\<lambda>(py, s). length s)") (auto dest: group_name_shorter)

definition compile_repl :: "python \<Rightarrow> pystr \<Rightarrow> py_error + titem list" where
  "compile_repl py repl =
     (if backslash \<notin> set repl then Inr (map TChar repl) else parse_template py repl)"

definition expand_template :: "titem list \<Rightarrow> pystr \<Rightarrow> pystr" where
  "expand_template t m = concat (map (\<lambda>i. case i of TChar c \<Rightarrow> [c] | TMatch \<Rightarrow> m) t)"

section \<open>Substitution\<close>

lemma match_here_splits:
  "match_here adv n0 p s = Some r \<Longrightarrow> (\<exists>m. s = m @ r) \<and> (adv \<longrightarrow> length r \<noteq> n0)"
proof (induction adv n0 p s arbitrary: r rule: match_here.induct)
  case (3 adv n0 c p x xs)
  then show ?case by (fastforce split: if_splits)
next
  case (5 adv n0 p x xs)
  then show ?case by (fastforce split: if_splits option.splits)
next
  case (7 adv n0 p x xs)
  then show ?case by (fastforce split: if_splits)
next
  case (9 adv n0 p x xs)
  then show ?case by (fastforce split: if_splits option.splits)
qed (auto split: if_splits)

lemma search_from_splits:
  "search_from adv p s = Some (skipped, m, r) \<Longrightarrow>
     s = skipped @ m @ r \<and> (adv \<longrightarrow> skipped \<noteq> [] \<or> m \<noteq> [])"
proof (induction adv p s arbitrary: skipped m r rule: search_from.induct)
  case (1 adv p)
  then show ?case by (auto split: option.splits dest: match_here_splits)
next
  case (2 adv p x xs)
  show ?case
  proof (cases "match_here adv (Suc (length xs)) p (x # xs)")
    case None
    with 2 show ?thesis by (auto split: option.splits)
  next
    case (Some r')
    from match_here_splits[OF Some] obtain m' where
      m': "x # xs = m' @ r'" and adv: "adv \<longrightarrow> length r' \<noteq> Suc (length xs)" by blast
    from m' have len: "Suc (length xs) = length m' + length r'"
      by (metis length_Cons length_append)
    from Some 2 have eqs: "skipped = []" "m = take (Suc (length xs) - length r') (x # xs)" "r = r'"
      by auto
    from m' len have "take (Suc (length xs) - length r') (x # xs) = m'" by simp
    with eqs m' adv len show ?thesis by auto
  qed
qed

function subn_from :: "bool \<Rightarrow> atom list \<Rightarrow> titem list \<Rightarrow> pystr \<Rightarrow> pystr \<times> nat" where
  \<comment> \<open>the loop of \<open>pattern.subn\<close>: search, keep the text skipped, put the expanded
      template for the match, go on after it; after an empty match the next one must
      advance\<close>
  "subn_from adv p t s =
     (case search_from adv p s of
        None \<Rightarrow> (s, 0)
      | Some (skipped, m, r) \<Rightarrow>
          (let (out, n) = subn_from (m = []) p t r
           in (skipped @ expand_template t m @ out, Suc n)))"
  by pat_completeness auto
termination
proof (relation "measure (\<lambda>(adv, p, t, s). 2 * length s + (if adv then 0 else 1))", goal_cases)
  case 1
  then show ?case by simp
next
  case (2 adv p t s x2 skipped y m r)
  then have "search_from adv p s = Some (skipped, m, r)" by simp
  from search_from_splits[OF this] show ?case
    by (cases m; cases skipped; cases adv) auto
qed

definition pattern_subn ::
  "python \<Rightarrow> atom list \<Rightarrow> pystr \<Rightarrow> pystr \<Rightarrow> py_error + (pystr \<times> nat)" where
  \<comment> \<open>\<open>pattern.subn(repl, content)\<close>: the template is compiled first\<close>
  "pattern_subn py p repl content =
     (case compile_repl py repl of
        Inl e \<Rightarrow> Inl e
      | Inr t \<Rightarrow> Inr (subn_from False p t content))"

section \<open>One instruction\<close>

record instruction =
  instr_type :: pystr
  filename :: pystr
  find :: pystr
  replace :: pystr
  write_text :: pystr
  delete :: pystr

datatype log_entry =
    NoMatchWarning pystr pystr
  | FileNotFoundWarning pystr
  | UpdatedInfo pystr
  | UpdateException pystr py_error

definition apply_instruction ::
  "python \<Rightarrow> instruction \<Rightarrow> pystr \<Rightarrow> (py_error + pystr) \<times> log_entry list" where
  \<comment> \<open>the value returned or the exception raised, and the lines logged\<close>
  "apply_instruction py instruction content =
     (let pattern = (if find instruction \<noteq> [] then Some (flexible_pattern (find instruction))
                     else None)
      in
      if instr_type instruction = str ''update'' \<and> find instruction \<noteq> [] \<and>
         replace instruction \<noteq> []
      then (case pattern of
              Some p \<Rightarrow>
                (case pattern_subn py p (replace instruction) content of
                   Inl e \<Rightarrow> (Inl e, [])
                 | Inr (updated_content, num_subs) \<Rightarrow>
                     (Inr updated_content,
                      if num_subs = 0 then [NoMatchWarning (str ''update'') (find instruction)]
                      else []))
            | None \<Rightarrow> (Inr content, []))
      else if instr_type instruction = str ''insert'' \<and> find instruction \<noteq> [] \<and>
         write_text instruction \<noteq> []
      then (case pattern of
              Some p \<Rightarrow>
                (case search p content of
                   Some (start, pos) \<Rightarrow>
                     (Inr (take pos content @ [LF] @ write_text instruction @ drop pos content), [])
                 | None \<Rightarrow>
                     (Inr content, [NoMatchWarning (str ''insert'') (find instruction)]))
            | None \<Rightarrow> (Inr content, []))
      else if instr_type instruction = str ''delete'' \<and> find instruction \<noteq> []
      then (case pattern of
              Some p \<Rightarrow>
                (case pattern_subn py p [] content of
                   Inl e \<Rightarrow> (Inl e, [])
                 | Inr (updated_content, num_subs) \<Rightarrow>
                     (Inr updated_content,
                      if num_subs = 0 then [NoMatchWarning (str ''delete'') (find instruction)]
                      else []))
            | None \<Rightarrow> (Inr content, []))
      else (Inr content, []))"

section \<open>The batch\<close>

text \<open>
  The file system: \<open>canon\<close> takes a file name, as the instruction writes it, to the file
  it names, so that two names of one file meet; \<open>stat_fails\<close> holds of the names on which
  \<open>stat\<close> raises an \<open>OSError\<close> that \<open>Path.exists\<close> lets through (permission denied on a
  directory of the path, a name that is too long); \<open>files\<close> holds, for a file that
  exists, whether it can be opened for reading, whether its bytes are UTF-8, whether it
  can be opened for writing, and its characters. Only \<open>files\<close> changes.
\<close>

datatype disk_file = File (readable: bool) (utf8: bool) (writable: bool) (data: pystr)

record fs =
  canon :: "pystr \<Rightarrow> pystr"
  stat_fails :: "pystr \<Rightarrow> bool"
  files :: "pystr \<Rightarrow> disk_file option"

definition encodable :: "pystr \<Rightarrow> bool" where
  \<comment> \<open>UTF-8 encodes every code point but the surrogates\<close>
  "encodable s = list_all (\<lambda>c. \<not> (55296 \<le> c \<and> c \<le> 57343)) s"

fun universal_newlines :: "pystr \<Rightarrow> pystr" where
  \<comment> \<open>reading in text mode with \<open>newline=None\<close>: CR LF and CR become LF\<close>
  "universal_newlines [] = []"
| "universal_newlines (c # cs) =
     (if c = CR then LF # universal_newlines (if cs \<noteq> [] \<and> hd cs = LF then tl cs else cs)
      else c # universal_newlines cs)"

definition write_newlines :: "pystr \<Rightarrow> pystr \<Rightarrow> pystr" where
  \<comment> \<open>writing in text mode with \<open>newline=None\<close>: LF becomes \<open>os.linesep\<close>\<close>
  "write_newlines sep s = concat (map (\<lambda>c. if c = LF then sep else [c]) s)"

definition path_exists :: "fs \<Rightarrow> pystr \<Rightarrow> py_error + bool" where
  \<comment> \<open>\<open>Path(filename).exists()\<close>\<close>
  "path_exists fsys name =
     (if stat_fails fsys name then Inl OSError
      else Inr (files fsys (canon fsys name) \<noteq> None))"

definition read_file :: "fs \<Rightarrow> pystr \<Rightarrow> py_error + pystr" where
  \<comment> \<open>\<open>open(file_path, 'r', encoding='utf-8')\<close> and \<open>f.read()\<close>\<close>
  "read_file fsys name =
     (case files fsys (canon fsys name) of
        None \<Rightarrow> Inl OSError
      | Some f \<Rightarrow>
          if \<not> readable f then Inl OSError
          else if \<not> utf8 f then Inl UnicodeError
          else Inr (universal_newlines (data f)))"

definition write_file :: "python \<Rightarrow> fs \<Rightarrow> pystr \<Rightarrow> pystr \<Rightarrow> fs \<times> py_error option" where
  \<comment> \<open>\<open>open(file_path, 'w', encoding='utf-8')\<close> and \<open>f.write(content)\<close>: the file is
      emptied when it is opened, and stays empty when the content cannot be encoded\<close>
  "write_file py fsys name content =
     (let k = canon fsys name in
      case files fsys k of
        None \<Rightarrow>
          if encodable content
          then (fsys\<lparr>files := (files fsys)(k \<mapsto> File True True True
                  (write_newlines (linesep py) content))\<rparr>, None)
          else (fsys\<lparr>files := (files fsys)(k \<mapsto> File True True True [])\<rparr>, Some UnicodeError)
      | Some f \<Rightarrow>
          if \<not> writable f then (fsys, Some OSError)
          else if encodable content
          then (fsys\<lparr>files := (files fsys)(k \<mapsto> File (readable f) True True
                  (write_newlines (linesep py) content))\<rparr>, None)
          else (fsys\<lparr>files := (files fsys)(k \<mapsto> File (readable f) True True [])\<rparr>,
                Some UnicodeError))"

fun add_to_group ::
  "pystr \<Rightarrow> instruction \<Rightarrow> (pystr \<times> instruction list) list \<Rightarrow> (pystr \<times> instruction list) list"
where
  \<comment> \<open>\<open>instructions_by_file[name].append(instr)\<close>: a new key goes last\<close>
  "add_to_group name instr [] = [(name, [instr])]"
| "add_to_group name instr ((k, v) # groups) =
     (if k = name then (k, v @ [instr]) # groups else (k, v) # add_to_group name instr groups)"

definition group_step ::
  "(pystr \<times> instruction list) list \<Rightarrow> instruction \<Rightarrow> (pystr \<times> instruction list) list" where
  \<comment> \<open>the body of the grouping loop: an instruction with an empty file name is left out\<close>
  "group_step groups instr =
     (if filename instr \<noteq> [] then add_to_group (filename instr) instr groups else groups)"

definition instructions_by_file :: "instruction list \<Rightarrow> (pystr \<times> instruction list) list" where
  "instructions_by_file instructions = foldl group_step [] instructions"

fun apply_all ::
  "python \<Rightarrow> instruction list \<Rightarrow> pystr \<Rightarrow> (py_error + pystr) \<times> log_entry list" where
  \<comment> \<open>the loop over the instructions of one file\<close>
  "apply_all py [] content = (Inr content, [])"
| "apply_all py (instruction # rest) content =
     (case apply_instruction py instruction content of
        (Inl e, lg) \<Rightarrow> (Inl e, lg)
      | (Inr content', lg) \<Rightarrow>
          (let (r, lg') = apply_all py rest content' in (r, lg @ lg')))"

definition try_update ::
  "python \<Rightarrow> pystr \<Rightarrow> instruction list \<Rightarrow> fs \<Rightarrow> fs \<times> log_entry list \<times> py_error option" where
  \<comment> \<open>the body of the \<open>try\<close>: the files after it, the lines logged, the exception raised\<close>
  "try_update py name file_instructions fsys =
     (case read_file fsys name of
        Inl e \<Rightarrow> (fsys, [], Some e)
      | Inr content \<Rightarrow>
          (case apply_all py file_instructions content of
             (Inl e, lg) \<Rightarrow> (fsys, lg, Some e)
           | (Inr content', lg) \<Rightarrow>
               (case write_file py fsys name content' of
                  (fsys', Some e) \<Rightarrow> (fsys', lg, Some e)
                | (fsys', None) \<Rightarrow> (fsys', lg @ [UpdatedInfo name], None))))"

definition process_group ::
  "python \<Rightarrow> pystr \<Rightarrow> instruction list \<Rightarrow> fs \<Rightarrow> fs \<times> log_entry list \<times> py_error option" where
  \<comment> \<open>one turn of the loop over the files: the exception is the one that leaves the loop;
      \<open>exists\<close> is called before the \<open>try\<close>\<close>
  "process_group py name file_instructions fsys =
     (case path_exists fsys name of
        Inl e \<Rightarrow> (fsys, [], Some e)
      | Inr False \<Rightarrow> (fsys, [FileNotFoundWarning name], None)
      | Inr True \<Rightarrow>
          (case try_update py name file_instructions fsys of
             (fsys', lg, Some e) \<Rightarrow> (fsys', lg @ [UpdateException name e], None)
           | (fsys', lg, None) \<Rightarrow> (fsys', lg, None)))"

fun process_groups ::
  "python \<Rightarrow> (pystr \<times> instruction list) list \<Rightarrow> fs \<Rightarrow> fs \<times> log_entry list \<times> py_error option"
where
  \<comment> \<open>the loop over the files: an exception that leaves a turn ends it\<close>
  "process_groups py [] fsys = (fsys, [], None)"
| "process_groups py ((name, file_instructions) # groups) fsys =
     (case process_group py name file_instructions fsys of
        (fsys', lg, Some e) \<Rightarrow> (fsys', lg, Some e)
      | (fsys', lg, None) \<Rightarrow>
          (let (fsys'', lg', r) = process_groups py groups fsys' in (fsys'', lg @ lg', r)))"

definition apply_instructions ::
  "python \<Rightarrow> instruction list \<Rightarrow> fs \<Rightarrow> fs \<times> log_entry list \<times> py_error option" where
  \<comment> \<open>the files after the call, the lines logged, and the exception that leaves the call\<close>
  "apply_instructions py instructions fsys =
     process_groups py (instructions_by_file instructions) fsys"

section \<open>What a pattern matches\<close>

text \<open>
  \<open>exact p m\<close>: the pattern \<open>p\<close> matches the whole of the text \<open>m\<close>. The engine finds
  a match at a position exactly when some text there is matched in this sense.
\<close>

fun exact :: "atom list \<Rightarrow> pystr \<Rightarrow> bool" where
  "exact [] m = (m = [])"
| "exact (Lit c # p) m = (\<exists>r. m = c # r \<and> exact p r)"
| "exact (OptCR # p) m = (exact p m \<or> (\<exists>r. m = CR # r \<and> exact p r))"
| "exact (Spaces # p) m = (\<exists>w r. m = w @ r \<and> w \<noteq> [] \<and> list_all is_space w \<and> exact p r)"
| "exact (Star # p) m = (\<exists>w r. m = w @ r \<and> list_all is_space w \<and> exact p r)"

fun occurs_in :: "pystr \<Rightarrow> pystr \<Rightarrow> bool" where
  \<comment> \<open>the first text occurs in the second, character for character\<close>
  "occurs_in x [] = (x = [])"
| "occurs_in x (c # cs) = (take (length x) (c # cs) = x \<or> occurs_in x cs)"

text \<open>
  A layout of a snippet: each line of the snippet as its leading whitespace followed by
  its tokens, with a gap, a non-empty run of whitespace, between two tokens of a line,
  and LF or CR LF between two lines.
\<close>

definition gap_ok :: "pystr \<Rightarrow> bool" where
  "gap_ok g = (g \<noteq> [] \<and> list_all is_space g)"

definition sep_ok :: "pystr \<Rightarrow> bool" where
  "sep_ok s = (s = [LF] \<or> s = [CR, LF])"

definition spaced :: "pystr list \<Rightarrow> pystr list \<Rightarrow> pystr" where
  "spaced tokens gaps =
     (if tokens = [] then []
      else hd tokens @ concat (map (\<lambda>(gap, token). gap @ token) (zip gaps (tl tokens))))"

definition line_layout :: "pystr \<Rightarrow> pystr list \<Rightarrow> pystr" where
  "line_layout line gaps =
     takeWhile is_space line @ spaced (tokens_of (dropWhile is_space line)) gaps"

definition valid_gaps :: "pystr \<Rightarrow> pystr list \<Rightarrow> bool" where
  "valid_gaps line gaps =
     (length gaps = length (tokens_of (dropWhile is_space line)) - 1 \<and> list_all gap_ok gaps)"

fun layout_lines :: "pystr list \<Rightarrow> pystr list list \<Rightarrow> pystr list \<Rightarrow> pystr" where
  "layout_lines [] gapss seps = []"
| "layout_lines [l] gapss seps = line_layout l (hd gapss)"
| "layout_lines (l # l' # ls) gapss seps =
     line_layout l (hd gapss) @ hd seps @ layout_lines (l' # ls) (tl gapss) (tl seps)"

definition layout :: "pystr \<Rightarrow> pystr list list \<Rightarrow> pystr list \<Rightarrow> pystr" where
  "layout snippet gapss seps = layout_lines (splitlines snippet) gapss seps"

definition valid_layout :: "pystr \<Rightarrow> pystr list list \<Rightarrow> pystr list \<Rightarrow> bool" where
  "valid_layout snippet gapss seps =
     (length seps = length (splitlines snippet) - 1 \<and>
      list_all2 valid_gaps (splitlines snippet) gapss \<and> list_all sep_ok seps)"

text \<open>
  The occurrences of a pattern in a text, as a scan from left to right finds them:
  \<open>occurrences p s [(g1, m1), ..., (gn, mn)] rest\<close> says that \<open>s\<close> is
  \<open>g1 m1 ... gn mn rest\<close>, that every \<open>mk\<close> is matched by \<open>p\<close>, that no match of
  \<open>p\<close> starts inside a \<open>gk\<close>, and that \<open>rest\<close> holds no match.
\<close>

definition starts_match :: "atom list \<Rightarrow> pystr \<Rightarrow> bool" where
  "starts_match p s = (\<exists>m r. s = m @ r \<and> exact p m)"

definition unmatched :: "atom list \<Rightarrow> pystr \<Rightarrow> pystr \<Rightarrow> bool" where
  "unmatched p g tail = (\<forall>a b. g = a @ b \<and> b \<noteq> [] \<longrightarrow> \<not> starts_match p (b @ tail))"

definition no_match :: "atom list \<Rightarrow> pystr \<Rightarrow> bool" where
  "no_match p s = (\<forall>a b. s = a @ b \<longrightarrow> \<not> starts_match p b)"

fun occurrences :: "atom list \<Rightarrow> pystr \<Rightarrow> (pystr \<times> pystr) list \<Rightarrow> pystr \<Rightarrow> bool" where
  "occurrences p s [] rest = (s = rest \<and> no_match p rest)"
| "occurrences p s ((g, m) # segs) rest =
     (\<exists>s'. s = g @ m @ s' \<and> unmatched p g (m @ s') \<and> exact p m \<and>
           occurrences p s' segs rest)"

text \<open>
  A pattern in which every \<open>\s+\<close> is followed by a literal that is no whitespace,
  and every \<open>
?\<close> by a literal other than CR: at one position it matches at most
  one text.
\<close>

fun det :: "atom list \<Rightarrow> bool" where
  "det [] = True"
| "det (Lit c # p) = det p"
| "det (Spaces # Lit c # p) = (\<not> is_space c \<and> det p)"
| "det (OptCR # Lit c # p) = (c \<noteq> CR \<and> det p)"
| "det p = False"

text \<open>
  The left fold of the interpreter over the instructions of a file, each instruction
  taking the content the one before returned.
\<close>

definition fold_in_order :: "python \<Rightarrow> instruction list \<Rightarrow> pystr \<Rightarrow> py_error + pystr" where
  "fold_in_order py grp0 content =
     foldl (\<lambda>acc instruction.
              case acc of Inl e \<Rightarrow> Inl e | Inr c \<Rightarrow> fst (apply_instruction py instruction c))
       (Inr content) grp0"

lemma exact_Star_Cons: "is_space x \<Longrightarrow> exact (Star # p) m \<Longrightarrow> exact (Star # p) (x # m)"
  apply simp
  apply (elim exE conjE)
  subgoal for w r by (rule exI[of _ "x # w"]) simp
  done

lemma exact_Star_skip: "exact p m \<Longrightarrow> exact (Star # p) m"
  by (simp, rule exI[of _ "[]"]) simp

lemma exact_Spaces_Cons: "is_space x \<Longrightarrow> exact (Star # p) m \<Longrightarrow> exact (Spaces # p) (x # m)"
  apply simp
  apply (elim exE conjE)
  subgoal for w r by (rule exI[of _ "x # w"]) simp
  done

lemma match_here_sound:
  "match_here adv n0 p s = Some r \<Longrightarrow> \<exists>m. s = m @ r \<and> exact p m"
proof (induction adv n0 p s arbitrary: r rule: match_here.induct)
  case (1 adv n0 s)
  then show ?case by (auto split: if_splits)
next
  case (3 adv n0 c p x xs)
  then show ?case by (fastforce split: if_splits)
next
  case (4 adv n0 p)
  then show ?case by fastforce
next
  case (5 adv n0 p x xs)
  then show ?case by (fastforce split: if_splits option.splits)
next
  case (7 adv n0 p x xs)
  from 7 have sp: "is_space x" and "match_here adv n0 (Star # p) xs = Some r"
    by (auto split: if_splits)
  with 7 obtain m where m: "xs = m @ r" "exact (Star # p) m" by blast
  with sp have "exact (Spaces # p) (x # m)" using exact_Spaces_Cons by blast
  with m show ?case by (intro exI[of _ "x # m"]) simp
next
  case (8 adv n0 p)
  then obtain m where "[] = m @ r" "exact p m" by fastforce
  then show ?case using exact_Star_skip by blast
next
  case (9 adv n0 p x xs)
  show ?case
  proof (cases "is_space x")
    case False
    with 9 obtain m where "x # xs = m @ r" "exact p m" by fastforce
    then show ?thesis using exact_Star_skip by blast
  next
    case True
    show ?thesis
    proof (cases "match_here adv n0 (Star # p) xs")
      case None
      with 9 True obtain m where "x # xs = m @ r" "exact p m" by fastforce
      then show ?thesis using exact_Star_skip by blast
    next
      case (Some r')
      with 9 True have "r' = r" by simp
      with 9 True Some obtain m where m: "xs = m @ r" "exact (Star # p) m" by blast
      with True have "exact (Star # p) (x # m)" using exact_Star_Cons by blast
      with m show ?thesis by (intro exI[of _ "x # m"]) simp
    qed
  qed
qed auto

lemma match_Star_skip:
  "match_here adv n0 p s \<noteq> None \<Longrightarrow> match_here adv n0 (Star # p) s \<noteq> None"
  by (cases s) (auto split: option.splits)

lemma match_Star_run:
  "list_all is_space w \<Longrightarrow> match_here adv n0 p s \<noteq> None \<Longrightarrow>
   match_here adv n0 (Star # p) (w @ s) \<noteq> None"
proof (induction w)
  case Nil
  then show ?case using match_Star_skip by simp
next
  case (Cons x w)
  then show ?case by (auto split: option.splits)
qed

lemma match_OptCR_skip:
  "match_here adv n0 p s \<noteq> None \<Longrightarrow> match_here adv n0 (OptCR # p) s \<noteq> None"
  by (cases s) (auto split: option.splits)

lemma match_here_complete:
  "exact p m \<Longrightarrow> (adv \<longrightarrow> length r \<noteq> n0) \<Longrightarrow> match_here adv n0 p (m @ r) \<noteq> None"
proof (induction p m arbitrary: r rule: exact.induct)
  case (1 m)
  then show ?case by simp
next
  case (2 c p m)
  then show ?case by auto
next
  case (3 p m)
  from "3.prems" consider "exact p m" | r0 where "m = CR # r0" "exact p r0" by auto
  then show ?case
  proof cases
    case 1
    then show ?thesis using 3 match_OptCR_skip by blast
  next
    case 2
    with "3.IH"(2)[of r0 r] "3.prems"(2) have "match_here adv n0 p (r0 @ r) \<noteq> None" by blast
    with 2 show ?thesis by (auto split: option.splits)
  qed
next
  case (4 p m)
  from "4.prems" obtain w r0 where w: "m = w @ r0" "w \<noteq> []" "list_all is_space w" "exact p r0"
    by auto
  then obtain x w' where xw: "w = x # w'" by (cases w) auto
  from w "4.IH" "4.prems"(2) have "match_here adv n0 p (r0 @ r) \<noteq> None" by blast
  with w xw have "match_here adv n0 (Star # p) (w' @ r0 @ r) \<noteq> None"
    using match_Star_run by simp
  with w xw show ?case by simp
next
  case (5 p m)
  from "5.prems" obtain w r0 where w: "m = w @ r0" "list_all is_space w" "exact p r0"
    by auto
  from w "5.IH" "5.prems"(2) have "match_here adv n0 p (r0 @ r) \<noteq> None" by blast
  with w show ?case using match_Star_run by simp
qed

lemma search_from_sound:
  "search_from adv p s = Some (skipped, m, r) \<Longrightarrow> exact p m"
proof (induction adv p s arbitrary: skipped m r rule: search_from.induct)
  case (1 adv p)
  then show ?case by (auto split: option.splits dest!: match_here_sound)
next
  case (2 adv p x xs)
  show ?case
  proof (cases "match_here adv (Suc (length xs)) p (x # xs)")
    case None
    with 2 show ?thesis by (auto split: option.splits)
  next
    case (Some r')
    from match_here_sound[OF Some] obtain m' where m': "x # xs = m' @ r'" "exact p m'" by blast
    from m' have "Suc (length xs) = length m' + length r'"
      by (metis length_Cons length_append)
    with m' have tk: "take (Suc (length xs) - length r') (x # xs) = m'" by simp
    from "2.prems" Some have "m = take (Suc (length xs) - length r') (x # xs)" by auto
    with tk m'(2) show ?thesis by simp
  qed
qed

lemma search_from_complete:
  "exact p m \<Longrightarrow> search_from False p (pre @ m @ post) \<noteq> None"
proof (induction pre)
  case Nil
  from match_here_complete[OF Nil, of False post]
  show ?case by (cases "m @ post") (auto split: option.splits)
next
  case (Cons x pre)
  then show ?case by (auto split: option.splits)
qed

lemma search_from_leftmost:
  "search_from adv p s = Some (skipped, m, r) \<Longrightarrow> \<not> adv \<Longrightarrow>
   skipped = a @ b \<Longrightarrow> b \<noteq> [] \<Longrightarrow> b @ m @ r = m' @ r' \<Longrightarrow> \<not> exact p m'"
proof (induction adv p s arbitrary: skipped a rule: search_from.induct)
  case (1 adv p)
  then show ?case by (auto split: option.splits)
next
  case (2 adv p x xs)
  show ?case
  proof (cases "match_here adv (Suc (length xs)) p (x # xs)")
    case (Some r0)
    with 2 show ?thesis by auto
  next
    case None
    with 2 obtain sk where sk: "search_from False p xs = Some (sk, m, r)" "skipped = x # sk"
      by (auto split: option.splits)
    from search_from_splits[OF sk(1)] have xs: "xs = sk @ m @ r" by simp
    show ?thesis
    proof (cases a)
      case Nil
      with "2.prems" sk have "b = x # sk" by simp
      with "2.prems"(5) xs have "x # xs = m' @ r'" by simp
      with None "2.prems"(2) show ?thesis
        using match_here_complete[of p m' False r' "Suc (length xs)"] by auto
    next
      case (Cons y a')
      with "2.prems" sk have "sk = a' @ b" by simp
      from "2.IH"[OF None sk(1) _ this "2.prems"(4,5)] "2.prems"(2) show ?thesis by simp
    qed
  qed
qed


lemma exact_append:
  "exact p m1 \<Longrightarrow> exact q m2 \<Longrightarrow> exact (p @ q) (m1 @ m2)"
proof (induction p m1 rule: exact.induct)
  case (4 p m)
  then obtain w r where "m = w @ r" "w \<noteq> []" "list_all is_space w" "exact p r" by auto
  with 4 show ?case by (simp, intro exI[of _ w] exI[of _ "r @ m2"]) simp
next
  case (5 p m)
  then obtain w r where "m = w @ r" "list_all is_space w" "exact p r" by auto
  with 5 show ?case by (simp, intro exI[of _ w] exI[of _ "r @ m2"]) simp
qed auto

lemma exact_split:
  "exact (p @ q) m \<Longrightarrow> \<exists>m1 m2. m = m1 @ m2 \<and> exact p m1 \<and> exact q m2"
proof (induction p m rule: exact.induct)
  case (1 m)
  then show ?case by simp
next
  case (2 c p m)
  then obtain r where r: "m = c # r" "exact (p @ q) r" by auto
  with 2 obtain m1 m2 where "r = m1 @ m2" "exact p m1" "exact q m2" by blast
  with r show ?case by (intro exI[of _ "c # m1"] exI[of _ m2]) simp
next
  case (3 p m)
  from "3.prems" consider "exact (p @ q) m" | r where "m = CR # r" "exact (p @ q) r" by auto
  then show ?case
  proof cases
    case 1
    with 3 obtain m1 m2 where "m = m1 @ m2" "exact p m1" "exact q m2" by blast
    then show ?thesis by (intro exI[of _ m1] exI[of _ m2]) simp
  next
    case 2
    with 3 obtain m1 m2 where "r = m1 @ m2" "exact p m1" "exact q m2" by blast
    with 2 show ?thesis by (intro exI[of _ "CR # m1"] exI[of _ m2]) simp
  qed
next
  case (4 p m)
  then obtain w r where w: "m = w @ r" "w \<noteq> []" "list_all is_space w" "exact (p @ q) r" by auto
  with 4 obtain m1 m2 where m: "r = m1 @ m2" "exact p m1" "exact q m2" by blast
  have "exact (Spaces # p) (w @ m1)" using w m by (simp, intro exI[of _ w] exI[of _ m1]) simp
  with w m show ?case by (intro exI[of _ "w @ m1"] exI[of _ m2]) simp
next
  case (5 p m)
  then obtain w r where w: "m = w @ r" "list_all is_space w" "exact (p @ q) r" by auto
  with 5 obtain m1 m2 where m: "r = m1 @ m2" "exact p m1" "exact q m2" by blast
  have "exact (Star # p) (w @ m1)" using w m by (simp, intro exI[of _ w] exI[of _ m1]) simp
  with w m show ?case by (intro exI[of _ "w @ m1"] exI[of _ m2]) simp
qed

lemma exact_append_iff:
  "exact (p @ q) m \<longleftrightarrow> (\<exists>m1 m2. m = m1 @ m2 \<and> exact p m1 \<and> exact q m2)"
  using exact_append exact_split by blast

lemma exact_literal: "exact (map Lit x) m \<longleftrightarrow> m = x"
  by (induction x arbitrary: m) auto

lemma exact_literal_then:
  "exact (map Lit x @ q) m \<longleftrightarrow> (\<exists>m'. m = x @ m' \<and> exact q m')"
  by (auto simp: exact_append_iff exact_literal)

lemma exact_gap_token:
  "exact (Spaces # map Lit t @ q) m \<longleftrightarrow> (\<exists>g m'. m = g @ t @ m' \<and> gap_ok g \<and> exact q m')"
  by (auto simp: exact_literal_then gap_ok_def)

lemma exact_gaps:
  "exact (concat (map (\<lambda>t. Spaces # map Lit t) ts)) m \<longleftrightarrow>
     (\<exists>gaps. length gaps = length ts \<and> list_all gap_ok gaps \<and>
        m = concat (map (\<lambda>(g, t). g @ t) (zip gaps ts)))"
proof (induction ts arbitrary: m)
  case Nil
  then show ?case by auto
next
  case (Cons t ts)
  let ?rest = "concat (map (\<lambda>t. Spaces # map Lit t) ts)"
  have "exact (concat (map (\<lambda>t. Spaces # map Lit t) (t # ts))) m \<longleftrightarrow>
      (\<exists>g m'. m = g @ t @ m' \<and> gap_ok g \<and> exact ?rest m')"
    using exact_gap_token[of t ?rest m] by simp
  also have "\<dots> \<longleftrightarrow> (\<exists>g gaps. gap_ok g \<and> length gaps = length ts \<and> list_all gap_ok gaps \<and>
      m = g @ t @ concat (map (\<lambda>(g, t). g @ t) (zip gaps ts)))"
    using Cons.IH by blast
  also have "\<dots> \<longleftrightarrow> (\<exists>gaps. length gaps = length (t # ts) \<and> list_all gap_ok gaps \<and>
      m = concat (map (\<lambda>(g, t). g @ t) (zip gaps (t # ts))))"
  proof
    assume "\<exists>g gaps. gap_ok g \<and> length gaps = length ts \<and> list_all gap_ok gaps \<and>
      m = g @ t @ concat (map (\<lambda>(g, t). g @ t) (zip gaps ts))"
    then obtain g gaps where "gap_ok g" "length gaps = length ts" "list_all gap_ok gaps"
      "m = g @ t @ concat (map (\<lambda>(g, t). g @ t) (zip gaps ts))" by blast
    then show "\<exists>gaps. length gaps = length (t # ts) \<and> list_all gap_ok gaps \<and>
      m = concat (map (\<lambda>(g, t). g @ t) (zip gaps (t # ts)))"
      by (intro exI[of _ "g # gaps"]) simp
  next
    assume "\<exists>gaps. length gaps = length (t # ts) \<and> list_all gap_ok gaps \<and>
      m = concat (map (\<lambda>(g, t). g @ t) (zip gaps (t # ts)))"
    then obtain gaps where g: "length gaps = length (t # ts)" "list_all gap_ok gaps"
      "m = concat (map (\<lambda>(g, t). g @ t) (zip gaps (t # ts)))" by blast
    then obtain g gaps' where "gaps = g # gaps'" by (cases gaps) auto
    with g show "\<exists>g gaps. gap_ok g \<and> length gaps = length ts \<and> list_all gap_ok gaps \<and>
      m = g @ t @ concat (map (\<lambda>(g, t). g @ t) (zip gaps ts))"
      by (intro exI[of _ g] exI[of _ gaps']) simp
  qed
  finally show ?case .
qed

lemma splitlines_from_clean:
  "list_all (\<lambda>c. \<not> is_linebreak c) cur \<Longrightarrow> l \<in> set (splitlines_from cur s) \<Longrightarrow>
   list_all (\<lambda>c. \<not> is_linebreak c) l"
  by (induction cur s rule: splitlines_from.induct) (auto split: if_splits)

lemma splitlines_clean:
  "l \<in> set (splitlines s) \<Longrightarrow> LF \<notin> set l"
proof -
  assume "l \<in> set (splitlines s)"
  then have "list_all (\<lambda>c. \<not> is_linebreak c) l"
    using splitlines_from_clean[of "[]" l s] by (simp add: splitlines_def)
  moreover have "is_linebreak LF" by (simp add: is_linebreak_def LF_def)
  ultimately show ?thesis by (auto simp: list_all_iff)
qed

lemma try_indent_clean:
  "LF \<notin> set line \<Longrightarrow> try_indent k line = Some (take k line, drop k line)"
proof -
  assume a: "LF \<notin> set line"
  then have "\<forall>c\<in>set (drop k line). c \<noteq> LF" by (metis in_set_dropD)
  then have "takeWhile (\<lambda>c. c \<noteq> LF) (drop k line) = drop k line"
    and "dropWhile (\<lambda>c. c \<noteq> LF) (drop k line) = []" by simp_all
  then show ?thesis by (simp add: try_indent_def at_dollar_def)
qed

lemma first_indent_clean:
  "LF \<notin> set line \<Longrightarrow> first_indent k line = Some (take k line, drop k line)"
  by (cases k) (simp_all add: try_indent_clean)

lemma line_match_clean:
  "LF \<notin> set line \<Longrightarrow> line_match line = Some (takeWhile is_space line, dropWhile is_space line)"
  by (simp add: line_match_def first_indent_clean takeWhile_eq_take[symmetric]
      dropWhile_eq_drop[symmetric])

lemma pattern_line_clean:
  "LF \<notin> set line \<Longrightarrow>
   pattern_line line =
     map Lit (takeWhile is_space line) @
     (case tokens_of (dropWhile is_space line) of
        [] \<Rightarrow> []
      | t # ts \<Rightarrow> map Lit t @ concat (map (\<lambda>t. Spaces # map Lit t) ts))"
  by (simp add: pattern_line_def line_match_clean re_escape_def Let_def split: list.splits)

lemma exact_pattern_line:
  assumes "LF \<notin> set line"
  shows "exact (pattern_line line) m \<longleftrightarrow> (\<exists>gaps. valid_gaps line gaps \<and> m = line_layout line gaps)"
proof (cases "tokens_of (dropWhile is_space line)")
  case Nil
  then show ?thesis
    using assms
    by (auto simp: pattern_line_clean exact_literal valid_gaps_def line_layout_def spaced_def)
next
  case (Cons t ts)
  have "exact (pattern_line line) m \<longleftrightarrow>
      (\<exists>m'. m = takeWhile is_space line @ t @ m' \<and>
         exact (concat (map (\<lambda>t. Spaces # map Lit t) ts)) m')"
    using assms Cons by (auto simp: pattern_line_clean exact_literal_then)
  also have "\<dots> \<longleftrightarrow> (\<exists>gaps. valid_gaps line gaps \<and> m = line_layout line gaps)"
    using Cons by (auto simp: exact_gaps valid_gaps_def line_layout_def spaced_def)
  finally show ?thesis .
qed

lemma exact_newline_sep:
  "exact (newline_sep @ q) m \<longleftrightarrow> (\<exists>sep m'. m = sep @ m' \<and> sep_ok sep \<and> exact q m')"
proof
  assume "exact (newline_sep @ q) m"
  then consider r where "m = LF # r" "exact q r" | r where "m = CR # LF # r" "exact q r"
    by (auto simp: newline_sep_def)
  then show "\<exists>sep m'. m = sep @ m' \<and> sep_ok sep \<and> exact q m'"
  proof cases
    case 1
    then show ?thesis by (intro exI[of _ "[LF]"] exI[of _ r]) (simp add: sep_ok_def)
  next
    case 2
    then show ?thesis by (intro exI[of _ "[CR, LF]"] exI[of _ r]) (simp add: sep_ok_def)
  qed
next
  assume "\<exists>sep m'. m = sep @ m' \<and> sep_ok sep \<and> exact q m'"
  then show "exact (newline_sep @ q) m" by (auto simp: newline_sep_def sep_ok_def)
qed

lemma exact_joined_lines:
  assumes "\<forall>l\<in>set ls. LF \<notin> set l"
  shows "exact (join_pattern newline_sep (map pattern_line ls)) m \<longleftrightarrow>
     (\<exists>gapss seps. length seps = length ls - 1 \<and> list_all2 valid_gaps ls gapss \<and>
        list_all sep_ok seps \<and> m = layout_lines ls gapss seps)"
  using assms
proof (induction ls arbitrary: m rule: induct_list012)
  case 1
  then show ?case by auto
next
  case (2 l)
  then have "exact (pattern_line l) m \<longleftrightarrow> (\<exists>gaps. valid_gaps l gaps \<and> m = line_layout l gaps)"
    using exact_pattern_line by simp
  also have "\<dots> \<longleftrightarrow> (\<exists>gapss seps. length seps = length [l] - 1 \<and> list_all2 valid_gaps [l] gapss \<and>
        list_all sep_ok seps \<and> m = layout_lines [l] gapss seps)"
  proof
    assume "\<exists>gaps. valid_gaps l gaps \<and> m = line_layout l gaps"
    then obtain gaps where "valid_gaps l gaps" "m = line_layout l gaps" by blast
    then show "\<exists>gapss seps. length seps = length [l] - 1 \<and> list_all2 valid_gaps [l] gapss \<and>
        list_all sep_ok seps \<and> m = layout_lines [l] gapss seps"
      by (intro exI[of _ "[gaps]"] exI[of _ "[]"]) simp
  next
    assume "\<exists>gapss seps. length seps = length [l] - 1 \<and> list_all2 valid_gaps [l] gapss \<and>
        list_all sep_ok seps \<and> m = layout_lines [l] gapss seps"
    then obtain gapss seps where g: "list_all2 valid_gaps [l] gapss" "m = layout_lines [l] gapss seps"
      by blast
    then obtain gaps where "gapss = [gaps]" by (auto simp: list_all2_Cons1)
    with g show "\<exists>gaps. valid_gaps l gaps \<and> m = line_layout l gaps" by auto
  qed
  finally show ?case by simp
next
  case (3 l l' ls)
  let ?tail = "join_pattern newline_sep (map pattern_line (l' # ls))"
  have clean: "LF \<notin> set l" "\<forall>x\<in>set (l' # ls). LF \<notin> set x" using "3.prems" by auto
  have "exact (join_pattern newline_sep (map pattern_line (l # l' # ls))) m \<longleftrightarrow>
      (\<exists>m1 sep m2. m = m1 @ sep @ m2 \<and> exact (pattern_line l) m1 \<and> sep_ok sep \<and> exact ?tail m2)"
    using exact_append_iff[of "pattern_line l" "newline_sep @ ?tail" m]
      exact_newline_sep[of ?tail]
    by (simp only: join_pattern.simps list.map) blast
  also have "\<dots> \<longleftrightarrow> (\<exists>gaps sep gapss seps. valid_gaps l gaps \<and> sep_ok sep \<and>
      length seps = length (l' # ls) - 1 \<and> list_all2 valid_gaps (l' # ls) gapss \<and>
      list_all sep_ok seps \<and> m = line_layout l gaps @ sep @ layout_lines (l' # ls) gapss seps)"
    by (simp only: "3.IH"(2)[OF clean(2)] exact_pattern_line[OF clean(1)]) blast
  also have "\<dots> \<longleftrightarrow> (\<exists>gapss seps. length seps = length (l # l' # ls) - 1 \<and>
      list_all2 valid_gaps (l # l' # ls) gapss \<and> list_all sep_ok seps \<and>
      m = layout_lines (l # l' # ls) gapss seps)"
  proof
    assume "\<exists>gaps sep gapss seps. valid_gaps l gaps \<and> sep_ok sep \<and>
      length seps = length (l' # ls) - 1 \<and> list_all2 valid_gaps (l' # ls) gapss \<and>
      list_all sep_ok seps \<and> m = line_layout l gaps @ sep @ layout_lines (l' # ls) gapss seps"
    then obtain gaps sep gapss seps where "valid_gaps l gaps" "sep_ok sep"
      "length seps = length (l' # ls) - 1" "list_all2 valid_gaps (l' # ls) gapss"
      "list_all sep_ok seps" "m = line_layout l gaps @ sep @ layout_lines (l' # ls) gapss seps"
      by blast
    then show "\<exists>gapss seps. length seps = length (l # l' # ls) - 1 \<and>
      list_all2 valid_gaps (l # l' # ls) gapss \<and> list_all sep_ok seps \<and>
      m = layout_lines (l # l' # ls) gapss seps"
      by (intro exI[of _ "gaps # gapss"] exI[of _ "sep # seps"]) simp
  next
    assume "\<exists>gapss seps. length seps = length (l # l' # ls) - 1 \<and>
      list_all2 valid_gaps (l # l' # ls) gapss \<and> list_all sep_ok seps \<and>
      m = layout_lines (l # l' # ls) gapss seps"
    then obtain gapss seps where g: "length seps = length (l # l' # ls) - 1"
      "list_all2 valid_gaps (l # l' # ls) gapss" "list_all sep_ok seps"
      "m = layout_lines (l # l' # ls) gapss seps" by blast
    from g(2) obtain gaps gapss' where gs: "gapss = gaps # gapss'" "valid_gaps l gaps"
      "list_all2 valid_gaps (l' # ls) gapss'" by (auto simp: list_all2_Cons1)
    from g(1) obtain sep seps' where ss: "seps = sep # seps'" by (cases seps) auto
    with g gs show "\<exists>gaps sep gapss seps. valid_gaps l gaps \<and> sep_ok sep \<and>
      length seps = length (l' # ls) - 1 \<and> list_all2 valid_gaps (l' # ls) gapss \<and>
      list_all sep_ok seps \<and> m = line_layout l gaps @ sep @ layout_lines (l' # ls) gapss seps"
      by (intro exI[of _ gaps] exI[of _ sep] exI[of _ gapss'] exI[of _ seps']) simp
  qed
  finally show ?case .
qed

lemma exact_flexible_pattern:
  "exact (flexible_pattern snippet) m \<longleftrightarrow>
     (\<exists>gapss seps. valid_layout snippet gapss seps \<and> m = layout snippet gapss seps)"
  using exact_joined_lines[of "splitlines snippet" m] splitlines_clean[of _ snippet]
  by (simp add: flexible_pattern_def valid_layout_def layout_def)

lemma ws_run_unique:
  assumes "list_all is_space w" "list_all is_space w'" "\<not> is_space c"
    and "w @ c # s = w' @ c # s'"
  shows "w = w' \<and> s = s'"
proof -
  have "takeWhile is_space (w @ c # s) = w" "takeWhile is_space (w' @ c # s') = w'"
    using assms(1-3) by (simp_all add: takeWhile_tail list_all_iff)
  with assms(4) show ?thesis by auto
qed

lemma det_unique:
  "det p \<Longrightarrow> exact p m \<Longrightarrow> exact p m' \<Longrightarrow> m @ r = m' @ r' \<Longrightarrow> m = m'"
proof (induction p arbitrary: m m' r r' rule: det.induct)
  case 1
  then show ?case by simp
next
  case (2 c p)
  then obtain x x' where "m = c # x" "exact p x" "m' = c # x'" "exact p x'" by auto
  with 2 show ?case by auto
next
  case (3 c p)
  from "3.prems" obtain w x where m: "m = w @ c # x" "w \<noteq> []" "list_all is_space w" "exact p x"
    by auto
  from "3.prems" obtain w' x' where m': "m' = w' @ c # x'" "w' \<noteq> []" "list_all is_space w'"
    "exact p x'" by auto
  from "3.prems" m m' have "w @ c # (x @ r) = w' @ c # (x' @ r')" by simp
  from ws_run_unique[OF m(3) m'(3) _ this] "3.prems"(1) have "w = w'" "x @ r = x' @ r'" by simp_all
  with "3.IH"[OF _ m(4) m'(4)] "3.prems"(1) m m' show ?case by simp
next
  case (4 c p)
  from "4.prems" consider x where "m = c # x" "exact p x" | x where "m = CR # c # x" "exact p x"
    by auto
  then show ?case
  proof cases
    case 1
    from "4.prems" consider x' where "m' = c # x'" "exact p x'"
      | x' where "m' = CR # c # x'" "exact p x'" by auto
    then show ?thesis
    proof cases
      case 1
      with \<open>m = c # x\<close> \<open>exact p x\<close> "4.IH"[of x x' r r'] "4.prems" show ?thesis by auto
    next
      case 2
      with \<open>m = c # x\<close> "4.prems" show ?thesis by auto
    qed
  next
    case 2
    from "4.prems" consider x' where "m' = c # x'" "exact p x'"
      | x' where "m' = CR # c # x'" "exact p x'" by auto
    then show ?thesis
    proof cases
      case 1
      with \<open>m = CR # c # x\<close> "4.prems" show ?thesis by auto
    next
      case 2
      with \<open>m = CR # c # x\<close> \<open>exact p x\<close> "4.IH"[of x x' r r'] "4.prems" show ?thesis by auto
    qed
  qed
qed simp_all

lemma det_append: "det p \<Longrightarrow> det q \<Longrightarrow> det (p @ q)"
  by (induction p rule: det.induct) auto

lemma det_literal: "det (map Lit x)"
  by (induction x) auto


lemma det_tokens:
  "\<forall>t\<in>set ts. t \<noteq> [] \<and> \<not> is_space (hd t) \<Longrightarrow>
   det (concat (map (\<lambda>t. Spaces # map Lit t) ts))"
proof (induction ts)
  case Nil
  then show ?case by simp
next
  case (Cons t ts)
  then obtain c cs where t: "t = c # cs" "\<not> is_space c" by (cases t) auto
  from Cons have "det (concat (map (\<lambda>t. Spaces # map Lit t) ts))" by simp
  then have "det (map Lit cs @ concat (map (\<lambda>t. Spaces # map Lit t) ts))"
    using det_append det_literal by blast
  with t show ?case by simp
qed

lemma re_split_ws_clean:
  "t \<in> set (re_split_ws insep cur s) \<Longrightarrow> list_all (\<lambda>c. \<not> is_space c) cur \<Longrightarrow>
   list_all (\<lambda>c. \<not> is_space c) t"
  by (induction insep cur s rule: re_split_ws.induct) (auto split: if_splits)

lemma tokens_of_clean:
  "t \<in> set (tokens_of content) \<Longrightarrow> t \<noteq> [] \<and> list_all (\<lambda>c. \<not> is_space c) t"
  using re_split_ws_clean[of t False "[]" content] by (auto simp: tokens_of_def)

lemma det_pattern_line: "LF \<notin> set line \<Longrightarrow> det (pattern_line line)"
proof -
  assume clean: "LF \<notin> set line"
  have tok: "\<forall>t\<in>set (tokens_of (dropWhile is_space line)). t \<noteq> [] \<and> \<not> is_space (hd t)"
  proof
    fix t assume "t \<in> set (tokens_of (dropWhile is_space line))"
    from tokens_of_clean[OF this] show "t \<noteq> [] \<and> \<not> is_space (hd t)" by (cases t) auto
  qed
  show ?thesis
  proof (cases "tokens_of (dropWhile is_space line)")
    case Nil
    with clean show ?thesis by (simp add: pattern_line_clean det_literal)
  next
    case (Cons t ts)
    with tok have "det (concat (map (\<lambda>t. Spaces # map Lit t) ts))" using det_tokens by simp
    then have "det (map Lit t @ concat (map (\<lambda>t. Spaces # map Lit t) ts))"
      using det_append det_literal by blast
    then have "det (map Lit (takeWhile is_space line) @ map Lit t @
        concat (map (\<lambda>t. Spaces # map Lit t) ts))"
      using det_append det_literal by blast
    with clean Cons show ?thesis by (simp add: pattern_line_clean)
  qed
qed

lemma det_join:
  "\<forall>p\<in>set ps. det p \<Longrightarrow> det (join_pattern newline_sep ps)"
proof (induction ps rule: induct_list012)
  case (3 p q ps)
  then have "det (join_pattern newline_sep (q # ps))" by simp
  then have "det (newline_sep @ join_pattern newline_sep (q # ps))"
    by (simp add: newline_sep_def LF_def CR_def)
  with 3 show ?case using det_append by simp
qed simp_all

lemma det_flexible_pattern: "det (flexible_pattern snippet)"
  unfolding flexible_pattern_def
  by (rule det_join) (auto simp: det_pattern_line splitlines_clean)

lemma det_nonempty: "det p \<Longrightarrow> p \<noteq> [] \<Longrightarrow> exact p m \<Longrightarrow> m \<noteq> []"
  by (induction p arbitrary: m rule: det.induct) auto

lemma match_here_det:
  assumes "det p" and "exact p m"
  shows "match_here False n0 p (m @ r) = Some r"
proof -
  from match_here_complete[OF assms(2), of False r n0]
  obtain r' where r': "match_here False n0 p (m @ r) = Some r'" by auto
  from match_here_sound[OF r'] obtain m' where "m @ r = m' @ r'" "exact p m'" by blast
  with det_unique[OF assms(1) assms(2)] have "m = m'" by blast
  with \<open>m @ r = m' @ r'\<close> r' show ?thesis by simp
qed

lemma match_here_none:
  "\<not> starts_match p s \<Longrightarrow> match_here adv n0 p s = None"
  using match_here_sound[of adv n0 p s] by (cases "match_here adv n0 p s")
    (auto simp: starts_match_def)

lemma search_from_first:
  assumes "det p" and "exact p m" and "m \<noteq> []"
  shows "unmatched p g (m @ s') \<Longrightarrow> search_from False p (g @ m @ s') = Some (g, m, s')"
proof (induction g)
  case Nil
  from assms(3) obtain x xs where xs: "m @ s' = x # xs" by (cases m) auto
  then have len: "Suc (length xs) = length m + length s'"
    by (metis length_Cons length_append)
  from match_here_det[OF assms(1,2), of "Suc (length xs)" s'] xs
  have "match_here False (Suc (length xs)) p (x # xs) = Some s'" by simp
  then have "search_from False p (x # xs) =
      Some ([], take (Suc (length xs) - length s') (x # xs), s')" by simp
  moreover have "take (Suc (length xs) - length s') (x # xs) = m"
    using len xs by (metis add_diff_cancel_right' append_eq_conv_conj)
  ultimately show ?case using xs by simp
next
  case (Cons x g)
  from Cons.prems have "\<not> starts_match p ((x # g) @ m @ s')"
    unfolding unmatched_def by (metis append_Nil list.distinct(1))
  then have none: "match_here False (Suc (length (g @ m @ s'))) p (x # g @ m @ s') = None"
    using match_here_none by simp
  have "unmatched p g (m @ s')"
    unfolding unmatched_def
  proof (intro allI impI)
    fix a b assume "g = a @ b \<and> b \<noteq> []"
    then have "x # g = (x # a) @ b \<and> b \<noteq> []" by simp
    with Cons.prems show "\<not> starts_match p (b @ m @ s')" unfolding unmatched_def by blast
  qed
  from Cons.IH[OF this] none show ?case by simp
qed

lemma search_from_no_match:
  "no_match p s \<Longrightarrow> search_from False p s = None"
proof (rule ccontr)
  assume nm: "no_match p s" and "search_from False p s \<noteq> None"
  then obtain sk m r where sf: "search_from False p s = Some (sk, m, r)" by auto
  from search_from_splits[OF sf] search_from_sound[OF sf]
  have "s = sk @ (m @ r)" "starts_match p (m @ r)" by (auto simp: starts_match_def)
  with nm show False unfolding no_match_def by blast
qed

lemma scan_unmatched:
  assumes "search_from False p s = Some (g, m, r)"
  shows "s = g @ m @ r \<and> exact p m \<and> unmatched p g (m @ r)"
proof -
  have "\<not> starts_match p (b @ m @ r)" if "g = a @ b" "b \<noteq> []" for a b
    using search_from_leftmost[OF assms _ that] by (auto simp: starts_match_def)
  then show ?thesis
    using search_from_splits[OF assms] search_from_sound[OF assms]
    by (auto simp: unmatched_def)
qed

lemma scan_none:
  assumes "search_from False p s = None"
  shows "no_match p s"
  unfolding no_match_def starts_match_def
proof (intro allI impI notI)
  fix a b assume "s = a @ b" and "\<exists>m r. b = m @ r \<and> exact p m"
  then obtain m r where "s = a @ m @ r" "exact p m" by auto
  with search_from_complete[of p m a r] assms show False by simp
qed

lemma subn_no_match:
  "search_from adv p s = None \<Longrightarrow> subn_from adv p t s = (s, 0)"
  by (subst subn_from.simps) (simp del: subn_from.simps)

lemma subn_match:
  "search_from adv p s = Some (skipped, m, r) \<Longrightarrow>
   subn_from adv p t s =
     (skipped @ expand_template t m @ fst (subn_from (m = []) p t r),
      Suc (snd (subn_from (m = []) p t r)))"
  by (subst subn_from.simps) (simp add: case_prod_unfold Let_def del: subn_from.simps)

lemma expand_literal: "expand_template (map TChar repl) m = repl"
  by (induction repl) (simp_all add: expand_template_def)

lemma subn_occurrences:
  assumes "det p" and "p \<noteq> []"
  shows "occurrences p s segs rest \<Longrightarrow>
     subn_from False p (map TChar repl) s =
       (concat (map (\<lambda>(g, m). g @ repl) segs) @ rest, length segs)"
proof (induction segs arbitrary: s)
  case Nil
  then show ?case using subn_no_match[OF search_from_no_match] by simp
next
  case (Cons a segs)
  obtain g m where a: "a = (g, m)" by (cases a)
  from Cons.prems a obtain s' where s': "s = g @ m @ s'" "unmatched p g (m @ s')" "exact p m"
    "occurrences p s' segs rest" by auto
  from det_nonempty[OF assms s'(3)] have ne: "m \<noteq> []" .
  from search_from_first[OF assms(1) s'(3) ne s'(2)] s'(1)
  have "search_from False p s = Some (g, m, s')" by simp
  from subn_match[OF this, of "map TChar repl"] ne Cons.IH[OF s'(4)] a
  show ?case by (simp add: expand_literal)
qed

lemma occurrences_nonempty_pattern:
  "occurrences p s segs rest \<Longrightarrow> p \<noteq> []"
proof (induction segs arbitrary: s)
  case Nil
  show ?case
  proof
    assume "p = []"
    then have "starts_match p rest" by (simp add: starts_match_def)
    with Nil show False by (auto simp: no_match_def)
  qed
next
  case (Cons a segs)
  then show ?case by (cases a) auto
qed

lemma kinds_differ:
  "str ''update'' \<noteq> str ''insert''" "str ''update'' \<noteq> str ''delete''"
  "str ''insert'' \<noteq> str ''delete''" "str ''insert'' \<noteq> str ''update''"
  "str ''delete'' \<noteq> str ''update''" "str ''delete'' \<noteq> str ''insert''"
  by (simp_all add: str_def)

lemma fold_raised:
  "foldl (\<lambda>acc instruction.
            case acc of Inl e \<Rightarrow> Inl e | Inr c \<Rightarrow> fst (apply_instruction py instruction c))
     (Inl e) grp0 = Inl e"
  by (induction grp0) simp_all

lemma apply_all_is_fold: "fst (apply_all py grp0 content) = fold_in_order py grp0 content"
proof (induction grp0 arbitrary: content)
  case Nil
  then show ?case by (simp add: fold_in_order_def)
next
  case (Cons i grp0)
  show ?case
  proof (cases "fst (apply_instruction py i content)")
    case (Inl e)
    then show ?thesis
      by (cases "apply_instruction py i content") (simp add: fold_in_order_def fold_raised)
  next
    case (Inr c)
    with Cons[of c] show ?thesis
      by (cases "apply_instruction py i content")
        (simp add: fold_in_order_def case_prod_unfold)
  qed
qed

lemma add_to_group_keys:
  "set (map fst (add_to_group k v g)) = insert k (set (map fst g))"
  by (induction k v g rule: add_to_group.induct) (auto split: if_splits)

lemma add_to_group_distinct:
  "distinct (map fst g) \<Longrightarrow> distinct (map fst (add_to_group k v g))"
proof (induction g)
  case Nil
  then show ?case by simp
next
  case (Cons a g)
  obtain k' vs where a: "a = (k', vs)" by (cases a)
  from Cons have "k' \<notin> set (map fst g)" and "distinct (map fst (add_to_group k v g))"
    by (auto simp: a)
  then show ?case using Cons.prems add_to_group_keys[of k v g] by (auto simp: a)
qed

lemma add_to_group_map_of:
  "map_of (add_to_group k v g) =
     (map_of g)(k \<mapsto> (case map_of g k of None \<Rightarrow> [v] | Some vs \<Rightarrow> vs @ [v]))"
  by (induction k v g rule: add_to_group.induct) (auto simp: fun_eq_iff)

lemma grouping_distinct:
  "distinct (map fst g) \<Longrightarrow> distinct (map fst (foldl group_step g instrs))"
  by (induction instrs arbitrary: g) (auto simp: group_step_def add_to_group_distinct)

lemma grouping_keys:
  "set (map fst (foldl group_step g instrs)) =
     set (map fst g) \<union> {filename i | i. i \<in> set instrs \<and> filename i \<noteq> []}"
proof (induction instrs arbitrary: g)
  case Nil
  then show ?case by simp
next
  case (Cons i instrs)
  have "set (map fst (group_step g i)) =
      set (map fst g) \<union> (if filename i \<noteq> [] then {filename i} else {})"
    using add_to_group_keys[of "filename i" i g] by (simp add: group_step_def)
  moreover have "{filename j | j. j \<in> set (i # instrs) \<and> filename j \<noteq> []} =
      (if filename i \<noteq> [] then {filename i} else {}) \<union>
      {filename j | j. j \<in> set instrs \<and> filename j \<noteq> []}"
    by auto
  ultimately show ?case using Cons.IH[of "group_step g i"] by (simp add: Un_assoc)
qed

lemma grouping_map_of:
  "f \<noteq> [] \<Longrightarrow>
   map_of (foldl group_step g instrs) f =
     (case map_of g f of
        None \<Rightarrow> (if filter (\<lambda>i. filename i = f) instrs = [] then None
                 else Some (filter (\<lambda>i. filename i = f) instrs))
      | Some vs \<Rightarrow> Some (vs @ filter (\<lambda>i. filename i = f) instrs))"
proof (induction instrs arbitrary: g)
  case Nil
  then show ?case by (simp split: option.splits)
next
  case (Cons i instrs)
  show ?case
    using Cons.IH[OF Cons.prems, of "group_step g i"] Cons.prems
    by (auto simp: group_step_def add_to_group_map_of split: option.splits)
qed

lemma groups_of_file:
  "f \<noteq> [] \<Longrightarrow>
   map_of (instructions_by_file instrs) f =
     (if filter (\<lambda>i. filename i = f) instrs = [] then None
      else Some (filter (\<lambda>i. filename i = f) instrs))"
  using grouping_map_of[of f "[]" instrs] by (simp add: instructions_by_file_def)

lemma groups_distinct: "distinct (map fst (instructions_by_file instrs))"
  using grouping_distinct[of "[]" instrs] by (simp add: instructions_by_file_def)

lemma groups_keys:
  "set (map fst (instructions_by_file instrs)) =
     {filename i | i. i \<in> set instrs \<and> filename i \<noteq> []}"
  using grouping_keys[of "[]" instrs] by (simp add: instructions_by_file_def)

lemmas group_defs =
  process_group_def path_exists_def try_update_def read_file_def write_file_def Let_def

lemma process_group_env:
  "canon (fst (process_group py name grp fsys)) = canon fsys \<and>
   stat_fails (fst (process_group py name grp fsys)) = stat_fails fsys"
  by (auto simp: group_defs split: option.splits sum.splits prod.splits if_splits bool.splits)

lemma process_group_frame:
  "canon fsys name \<noteq> k \<Longrightarrow> files (fst (process_group py name grp fsys)) k = files fsys k"
  by (auto simp: group_defs split: option.splits sum.splits prod.splits if_splits bool.splits)

lemma process_group_returns:
  "\<not> stat_fails fsys name \<Longrightarrow> snd (snd (process_group py name grp fsys)) = None"
  by (auto simp: group_defs split: option.splits sum.splits prod.splits if_splits bool.splits)

lemma process_group_local:
  "canon fs1 = canon fs2 \<Longrightarrow> stat_fails fs1 = stat_fails fs2 \<Longrightarrow>
   files fs1 (canon fs1 f) = files fs2 (canon fs2 f) \<Longrightarrow>
   files (fst (process_group py f grp fs1)) (canon fs1 f) =
   files (fst (process_group py f grp fs2)) (canon fs2 f)"
  by (auto simp: group_defs split: option.splits sum.splits prod.splits if_splits bool.splits)

lemma process_groups_target:
  assumes "distinct (map fst groups)"
    and "\<forall>g\<in>set (map fst groups). \<not> stat_fails fsys g"
    and "\<forall>g\<in>set (map fst groups). g \<noteq> f \<longrightarrow> canon fsys g \<noteq> canon fsys f"
  shows "snd (snd (process_groups py groups fsys)) = None \<and>
         files (fst (process_groups py groups fsys)) (canon fsys f) =
           (case map_of groups f of
              None \<Rightarrow> files fsys (canon fsys f)
            | Some grp \<Rightarrow> files (fst (process_group py f grp fsys)) (canon fsys f))"
  using assms
proof (induction groups arbitrary: fsys)
  case Nil
  then show ?case by simp
next
  case (Cons a groups)
  obtain name js where a: "a = (name, js)" by (cases a)
  let ?r = "process_group py name js fsys"
  let ?fs = "fst ?r"
  from Cons.prems have d: "distinct (map fst groups)" and n: "name \<notin> fst ` set groups"
    by (auto simp: a)
  have env: "canon ?fs = canon fsys" "stat_fails ?fs = stat_fails fsys"
    using process_group_env[of py name js fsys] by simp_all
  from Cons.prems(2) have ok: "snd (snd ?r) = None"
    using process_group_returns[of fsys name py js] by (simp add: a)
  have p2: "\<forall>g\<in>set (map fst groups). \<not> stat_fails ?fs g"
    and p3: "\<forall>g\<in>set (map fst groups). g \<noteq> f \<longrightarrow> canon ?fs g \<noteq> canon ?fs f"
    using Cons.prems(2,3) env by (auto simp: a)
  note IH = Cons.IH[OF d p2 p3]
  have step: "process_groups py (a # groups) fsys =
      (fst (process_groups py groups ?fs),
       fst (snd ?r) @ fst (snd (process_groups py groups ?fs)),
       snd (snd (process_groups py groups ?fs)))"
    using ok by (cases ?r) (auto simp: a case_prod_unfold Let_def split: option.splits)
  show ?case
  proof (cases "f = name")
    case True
    with n have "map_of groups f = None" by (simp add: map_of_eq_None_iff)
    with IH step True env show ?thesis by (simp add: a)
  next
    case False
    with Cons.prems(3) have "canon fsys name \<noteq> canon fsys f" by (auto simp: a)
    then have fr: "files ?fs (canon fsys f) = files fsys (canon fsys f)"
      using process_group_frame by simp
    have loc: "files (fst (process_group py f grp ?fs)) (canon fsys f) =
        files (fst (process_group py f grp fsys)) (canon fsys f)" for grp
      using process_group_local[of ?fs fsys f py grp] env fr by simp
    from IH step False env fr loc show ?thesis by (auto simp: a split: option.splits)
  qed
qed

lemmas eval_defs =
  str_def LF_def CR_def backslash_def is_space_def is_linebreak_def splitlines_def
  at_dollar_def try_indent_def line_match_def tokens_of_def re_escape_def newline_sep_def
  pattern_line_def flexible_pattern_def search_def compile_repl_def expand_template_def
  pattern_subn_def apply_instruction_def

lemmas io_defs =
  apply_instructions_def instructions_by_file_def group_step_def group_defs
  write_newlines_def encodable_def fold_in_order_def cpython_def

section \<open>Indentation\<close>

text \<open>
  C1, as stated, fails, in three ways. The snippet \<open>foo\<close> has no indentation, the
  candidate's only line is indented by two spaces, and the matcher matches it from the
  third character on, so that an update rewrites the line. The snippet of the two lines
  \<open>f(a, b)\<close> and \<open>    x\<close> matches a candidate of three lines whose second line is
  indented by ten spaces: the run between two tokens may hold a line break. The snippet
  \<open>a\<close> with a blank second line matches the candidate whose second line is \<open>  b\<close>.
\<close>

theorem indentation_counterexample:
  "takeWhile is_space (str ''foo'') = [] \<and>
   search (flexible_pattern (str ''foo'')) (str ''  foo'') = Some (2, 5) \<and>
   apply_instruction cpython
     \<lparr>instr_type = str ''update'', filename = str ''a.py'', find = str ''foo'',
      replace = str ''bar'', write_text = [], delete = []\<rparr> (str ''  foo'')
   = (Inr (str ''  bar''), []) \<and>
   splitlines (str ''f(a, b)'' @ [LF] @ str ''    x'') = [str ''f(a, b)'', str ''    x''] \<and>
   splitlines (str ''f(a,'' @ [LF] @ str ''          b)'' @ [LF] @ str ''    x'')
     = [str ''f(a,'', str ''          b)'', str ''    x''] \<and>
   search (flexible_pattern (str ''f(a, b)'' @ [LF] @ str ''    x''))
     (str ''f(a,'' @ [LF] @ str ''          b)'' @ [LF] @ str ''    x'') = Some (0, 23) \<and>
   splitlines (str ''a'' @ [LF, LF]) = [str ''a'', []] \<and>
   splitlines (str ''a'' @ [LF] @ str ''  b'') = [str ''a'', str ''  b''] \<and>
   search (flexible_pattern (str ''a'' @ [LF, LF])) (str ''a'' @ [LF] @ str ''  b'') = Some (0, 2)"
  by (simp add: eval_defs cpython_def)

text \<open>
  C1, amended. Every text that the compiled matcher matches in a candidate is a layout
  of the snippet: for each line of the snippet in turn, exactly its leading whitespace
  followed by its tokens, a non-empty run of whitespace between two tokens of a line,
  LF or CR LF between two lines. Where the match starts in the candidate is free.
\<close>

theorem match_is_layout:
  assumes "search (flexible_pattern snippet) candidate = Some (b, e)"
  shows "b \<le> e \<and> e \<le> length candidate \<and>
         (\<exists>gapss seps. valid_layout snippet gapss seps \<and>
            take (e - b) (drop b candidate) = layout snippet gapss seps)"
proof -
  let ?p = "flexible_pattern snippet"
  from assms obtain skipped m r where
    sf: "search_from False ?p candidate = Some (skipped, m, r)"
    and b: "b = length skipped" and e: "e = length skipped + length m"
    by (auto simp: search_def split: option.splits)
  from search_from_splits[OF sf] have c: "candidate = skipped @ m @ r" by simp
  with b e have mt: "take (e - b) (drop b candidate) = m" by simp
  from search_from_sound[OF sf] have "exact ?p m" .
  then obtain gapss seps where "valid_layout snippet gapss seps" "m = layout snippet gapss seps"
    using exact_flexible_pattern by blast
  with mt b e c show ?thesis by auto
qed

theorem match_is_layout_witness:
  "search (flexible_pattern (str ''a'' @ [LF] @ str ''  b c''))
     (str '' a'' @ [CR, LF] @ str ''  b   c'') = Some (1, 11) \<and>
   (1::nat) \<le> 11 \<and> 11 \<le> length (str '' a'' @ [CR, LF] @ str ''  b   c'') \<and>
   (\<exists>gapss seps. valid_layout (str ''a'' @ [LF] @ str ''  b c'') gapss seps \<and>
      take (11 - 1) (drop 1 (str '' a'' @ [CR, LF] @ str ''  b   c''))
        = layout (str ''a'' @ [LF] @ str ''  b c'') gapss seps)"
proof -
  have h: "search (flexible_pattern (str ''a'' @ [LF] @ str ''  b c''))
     (str '' a'' @ [CR, LF] @ str ''  b   c'') = Some (1, 11)"
    by (simp add: eval_defs)
  from match_is_layout[OF h] h show ?thesis by blast
qed

lemma line_layout_indent:
  assumes "tokens_of (dropWhile is_space line) \<noteq> []"
  shows "takeWhile is_space (line_layout line gaps @ rest) = takeWhile is_space line"
proof -
  from assms obtain t ts where toks: "tokens_of (dropWhile is_space line) = t # ts"
    by (cases "tokens_of (dropWhile is_space line)") auto
  then have "t \<in> set (tokens_of (dropWhile is_space line))" by simp
  from tokens_of_clean[OF this] obtain c cs where "t = c # cs" "\<not> is_space c"
    by (cases t) auto
  with toks have "takeWhile is_space (line_layout line gaps @ rest) =
      takeWhile is_space (takeWhile is_space line)"
    by (simp add: line_layout_def spaced_def takeWhile_tail)
  then show ?thesis by simp
qed

section \<open>Whitespace between tokens\<close>




section \<open>Insert\<close>



section \<open>Empty required fields\<close>

text \<open>
  C10. An update instruction whose \<open>replace\<close> is empty, and an insert instruction whose
  \<open>write\<close> is empty, return the content as it is and log nothing, whatever \<open>find\<close>
  matches.
\<close>

theorem empty_field_is_silent_noop:
  assumes "(instr_type i = str ''update'' \<and> replace i = []) \<or>
           (instr_type i = str ''insert'' \<and> write_text i = [])"
  shows "apply_instruction py i content = (Inr content, [])"
  using assms kinds_differ by (auto simp: apply_instruction_def)

theorem empty_field_is_silent_noop_witness:
  "apply_instruction cpython
     \<lparr>instr_type = str ''update'', filename = str ''a.py'', find = str ''x'',
      replace = [], write_text = [], delete = []\<rparr> (str ''x = x'') = (Inr (str ''x = x''), []) \<and>
   apply_instruction cpython
     \<lparr>instr_type = str ''insert'', filename = str ''a.py'', find = str ''x'',
      replace = [], write_text = [], delete = []\<rparr> (str ''x = x'') = (Inr (str ''x = x''), [])"
  using
    empty_field_is_silent_noop[of "\<lparr>instr_type = str ''update'', filename = str ''a.py'',
      find = str ''x'', replace = [], write_text = [], delete = []\<rparr>" cpython "str ''x = x''"]
    empty_field_is_silent_noop[of "\<lparr>instr_type = str ''insert'', filename = str ''a.py'',
      find = str ''x'', replace = [], write_text = [], delete = []\<rparr>" cpython "str ''x = x''"]
  by simp

section \<open>Update\<close>

lemma apply_raises_only_in_template:
  assumes "fst (apply_instruction py i content) = Inl e"
  shows "instr_type i = str ''update'' \<and> find i \<noteq> [] \<and> replace i \<noteq> [] \<and>
         backslash \<in> set (replace i) \<and> parse_template py (replace i) = Inl e"
  using assms kinds_differ
  by (auto simp: apply_instruction_def pattern_subn_def compile_repl_def Let_def
      split: if_splits sum.splits prod.splits option.splits)

lemma no_match_returns_content:
  assumes "search (flexible_pattern (find i)) content = None"
    and "compile_repl py (replace i) = Inr t \<or> instr_type i \<noteq> str ''update''"
  shows "fst (apply_instruction py i content) = Inr content"
proof -
  from assms(1) have sf: "search_from False (flexible_pattern (find i)) content = None"
    by (auto simp: search_def split: option.splits)
  have sub: "subn_from False (flexible_pattern (find i)) t' content = (content, 0)" for t'
    using subn_no_match[OF sf] .
  show ?thesis
    using assms sub kinds_differ
    by (auto simp: apply_instruction_def pattern_subn_def compile_repl_def Let_def
        split: if_splits sum.splits)
qed

text \<open>
  C3. Applying an instruction is not total: an update whose \<open>replace\<close> is a backslash
  and the digit 1 raises in the template compiler, before any matching, here on the
  content \<open>a\<close> with \<open>find\<close> \<open>a\<close>.
\<close>

theorem update_bad_template_raises:
  "apply_instruction py
     \<lparr>instr_type = str ''update'', filename = str ''a.py'', find = str ''a'',
      replace = [backslash, 49], write_text = [], delete = []\<rparr> (str ''a'')
   = (Inl TemplateError, [])"
  by (simp add: eval_defs is_digit_def is_octdigit_def)

text \<open>
  C4. The text put for a match is not \<open>replace\<close> character for character: with
  \<open>replace\<close> a backslash and the letter n, the match is replaced by one newline.
\<close>

theorem update_template_escape_altered:
  "apply_instruction py
     \<lparr>instr_type = str ''update'', filename = str ''a.py'', find = str ''a'',
      replace = [backslash, 110], write_text = [], delete = []\<rparr> (str ''a'')
   = (Inr [LF], [])"
  by (simp add: eval_defs is_digit_def is_octdigit_def escape_value_def emit_def)

text \<open>
  C6. An instruction whose pattern matches nowhere is not always a no-op: the pattern of
  \<open>find\<close> \<open>zz\<close> finds nothing in the content \<open>a\<close>, and the update whose \<open>replace\<close> is
  a backslash and the digit 1 raises, since the template is compiled before the search.
\<close>

theorem no_match_update_raises:
  "search (flexible_pattern (str ''zz'')) (str ''a'') = None \<and>
   apply_instruction py
     \<lparr>instr_type = str ''update'', filename = str ''a.py'', find = str ''zz'',
      replace = [backslash, 49], write_text = [], delete = []\<rparr> (str ''a'')
   = (Inl TemplateError, [])"
  by (simp add: eval_defs is_digit_def is_octdigit_def)

lemma update_rewrites_every_occurrence:
  assumes "instr_type i = str ''update''" and "find i \<noteq> []" and "replace i \<noteq> []"
    and "backslash \<notin> set (replace i)"
    and "occurrences (flexible_pattern (find i)) content segs rest"
  shows "fst (apply_instruction py i content) =
           Inr (concat (map (\<lambda>(g, m). g @ replace i) segs) @ rest)"
proof -
  from subn_occurrences[OF det_flexible_pattern occurrences_nonempty_pattern[OF assms(5)] assms(5),
      of "replace i"]
  show ?thesis
    using assms(1-4) by (simp add: apply_instruction_def pattern_subn_def compile_repl_def)
qed

text \<open>
  C2, as stated, fails: the content \<open>aabab\<close> holds two occurrences of \<open>find\<close> \<open>ab\<close>,
  \<open>replace\<close> \<open>b\<close> does not hold \<open>ab\<close>, and the result \<open>abb\<close> of the update does.
\<close>

theorem update_two_occurrences_counterexample:
  "occurrences (flexible_pattern (str ''ab'')) (str ''aabab'')
     [(str ''a'', str ''ab''), ([], str ''ab'')] [] \<and>
   \<not> occurs_in (str ''ab'') (str ''b'') \<and>
   apply_instruction cpython
     \<lparr>instr_type = str ''update'', filename = str ''a.py'', find = str ''ab'',
      replace = str ''b'', write_text = [], delete = []\<rparr> (str ''aabab'')
   = (Inr (str ''abb''), []) \<and>
   occurs_in (str ''ab'') (str ''abb'')"
proof -
  let ?p = "flexible_pattern (str ''ab'')"
  have s1: "search_from False ?p (str ''aabab'') = Some (str ''a'', str ''ab'', str ''ab'')"
    and s2: "search_from False ?p (str ''ab'') = Some ([], str ''ab'', [])"
    and s3: "search_from False ?p [] = None"
    by (simp_all add: eval_defs)
  from scan_none[OF s3] have o0: "occurrences ?p [] [] []" by simp
  from scan_unmatched[OF s2] o0 have o1: "occurrences ?p (str ''ab'') [([], str ''ab'')] []"
    by simp
  from scan_unmatched[OF s1] o1
  have o2: "occurrences ?p (str ''aabab'') [(str ''a'', str ''ab''), ([], str ''ab'')] []"
    by simp
  have rest: "\<not> occurs_in (str ''ab'') (str ''b'')"
    "apply_instruction cpython
     \<lparr>instr_type = str ''update'', filename = str ''a.py'', find = str ''ab'',
      replace = str ''b'', write_text = [], delete = []\<rparr> (str ''aabab'')
     = (Inr (str ''abb''), [])"
    "occurs_in (str ''ab'') (str ''abb'')"
    by (simp_all add: eval_defs cpython_def)
  from o2 rest show ?thesis by blast
qed

text \<open>
  C2, amended. Where the content holds exactly two occurrences of the pattern compiled
  from \<open>find\<close>, an update with a non-empty \<open>replace\<close> that holds no backslash returns
  the content with each of the two occurrences replaced by \<open>replace\<close> and the text
  before, between and after them kept.
\<close>

theorem update_rewrites_both_occurrences:
  assumes "instr_type i = str ''update''" and "find i \<noteq> []" and "replace i \<noteq> []"
    and "backslash \<notin> set (replace i)"
    and "occurrences (flexible_pattern (find i)) content [(g1, m1), (g2, m2)] rest"
  shows "content = g1 @ m1 @ g2 @ m2 @ rest \<and>
         apply_instruction py i content =
           (Inr (g1 @ replace i @ g2 @ replace i @ rest), [])"
proof -
  let ?p = "flexible_pattern (find i)"
  from assms(5) have c: "content = g1 @ m1 @ g2 @ m2 @ rest" by auto
  from subn_occurrences[OF det_flexible_pattern occurrences_nonempty_pattern[OF assms(5)] assms(5),
      of "replace i"]
  have "subn_from False ?p (map TChar (replace i)) content =
      (g1 @ replace i @ g2 @ replace i @ rest, 2)" by simp
  with assms(1-4) c show ?thesis
    by (simp add: apply_instruction_def pattern_subn_def compile_repl_def)
qed


theorem update_rewrites_both_occurrences_witness:
  "occurrences (flexible_pattern (str ''foo'')) (str ''foo = foo'')
     [([], str ''foo''), (str '' = '', str ''foo'')] [] \<and>
   str ''foo = foo'' = [] @ str ''foo'' @ str '' = '' @ str ''foo'' @ [] \<and>
   apply_instruction cpython
     \<lparr>instr_type = str ''update'', filename = str ''a.py'', find = str ''foo'',
      replace = str ''bar'', write_text = [], delete = []\<rparr> (str ''foo = foo'')
   = (Inr ([] @ str ''bar'' @ str '' = '' @ str ''bar'' @ []), [])"
proof -
  let ?i = "\<lparr>instr_type = str ''update'', filename = str ''a.py'', find = str ''foo'',
      replace = str ''bar'', write_text = [], delete = []\<rparr>"
  let ?p = "flexible_pattern (str ''foo'')"
  have s1: "search_from False ?p (str ''foo = foo'') = Some ([], str ''foo'', str '' = foo'')"
    and s2: "search_from False ?p (str '' = foo'') = Some (str '' = '', str ''foo'', [])"
    and s3: "search_from False ?p [] = None"
    by (simp_all add: eval_defs)
  from scan_none[OF s3] have o0: "occurrences ?p [] [] []" by simp
  from scan_unmatched[OF s2] o0
  have o1: "occurrences ?p (str '' = foo'') [(str '' = '', str ''foo'')] []" by simp
  from scan_unmatched[OF s1] o1
  have o2: "occurrences ?p (str ''foo = foo'') [([], str ''foo''), (str '' = '', str ''foo'')] []"
    by simp
  then have h: "occurrences (flexible_pattern (find ?i)) (str ''foo = foo'')
      [([], str ''foo''), (str '' = '', str ''foo'')] []" by simp
  have a: "instr_type ?i = str ''update''" "find ?i \<noteq> []" "replace ?i \<noteq> []"
    "backslash \<notin> set (replace ?i)"
    by (simp_all add: str_def backslash_def)
  from update_rewrites_both_occurrences[OF a h, of cpython]
  have r: "apply_instruction cpython ?i (str ''foo = foo'') =
      (Inr ([] @ replace ?i @ str '' = '' @ replace ?i @ []), [])" by blast
  have eq: "str ''foo = foo'' = [] @ str ''foo'' @ str '' = '' @ str ''foo'' @ []"
    by (simp add: str_def)
  from r have "apply_instruction cpython ?i (str ''foo = foo'') =
      (Inr ([] @ str ''bar'' @ str '' = '' @ str ''bar'' @ []), [])" by simp
  with o2 eq show ?thesis by blast
qed

section \<open>Files of a batch\<close>

text \<open>
  C9. An error does leave the batch call: \<open>exists\<close> is called before the \<open>try\<close>, so
  that with a first file name on which \<open>stat\<close> raises, the call ends with that
  \<open>OSError\<close>, nothing is logged, and the instruction for the second file, which exists
  and holds \<open>X\<close>, is never applied.
\<close>

theorem exists_error_leaves_batch:
  "apply_instructions py
     [\<lparr>instr_type = str ''update'', filename = str ''locked/b.py'', find = str ''X'',
       replace = str ''Y'', write_text = [], delete = []\<rparr>,
      \<lparr>instr_type = str ''update'', filename = str ''a.py'', find = str ''X'',
       replace = str ''Y'', write_text = [], delete = []\<rparr>]
     \<lparr>canon = (\<lambda>n. n), stat_fails = (\<lambda>n. n = str ''locked/b.py''),
      files = [str ''a.py'' \<mapsto> File True True True (str ''X'')]\<rparr>
   = (\<lparr>canon = (\<lambda>n. n), stat_fails = (\<lambda>n. n = str ''locked/b.py''),
       files = [str ''a.py'' \<mapsto> File True True True (str ''X'')]\<rparr>, [], Some OSError)"
  by (simp add: io_defs str_def)

text \<open>
  C8, as stated, fails: three instructions for one file, the second under another name
  of it. Folded in the order of the batch they take \<open>X\<close> to \<open>W\<close>; the batch groups
  them by the name as written, runs the first and the third, then the second, and
  leaves \<open>Z\<close> in the file.
\<close>

theorem two_names_counterexample:
  "fold_in_order cpython
     [\<lparr>instr_type = str ''update'', filename = str ''a.py'', find = str ''X'',
       replace = str ''Y'', write_text = [], delete = []\<rparr>,
      \<lparr>instr_type = str ''update'', filename = str ''./a.py'', find = str ''Y'',
       replace = str ''Z'', write_text = [], delete = []\<rparr>,
      \<lparr>instr_type = str ''update'', filename = str ''a.py'', find = str ''Z'',
       replace = str ''W'', write_text = [], delete = []\<rparr>] (str ''X'') = Inr (str ''W'') \<and>
   files (fst (apply_instructions cpython
     [\<lparr>instr_type = str ''update'', filename = str ''a.py'', find = str ''X'',
       replace = str ''Y'', write_text = [], delete = []\<rparr>,
      \<lparr>instr_type = str ''update'', filename = str ''./a.py'', find = str ''Y'',
       replace = str ''Z'', write_text = [], delete = []\<rparr>,
      \<lparr>instr_type = str ''update'', filename = str ''a.py'', find = str ''Z'',
       replace = str ''W'', write_text = [], delete = []\<rparr>]
     \<lparr>canon = (\<lambda>n. if n = str ''./a.py'' then str ''a.py'' else n),
      stat_fails = (\<lambda>n. False),
      files = [str ''a.py'' \<mapsto> File True True True (str ''X'')]\<rparr>)) (str ''a.py'')
   = Some (File True True True (str ''Z''))"
  by (simp add: eval_defs io_defs)

text \<open>
  C8, amended. The instructions of a batch that carry one file name are one group, in
  the order of the batch. Where \<open>stat\<close> raises on no name of the batch and no other
  name of the batch names the same file, and the file can be read, decoded and written,
  what the batch leaves in the file is the left fold of the interpreter over that group,
  each instruction taking the content the one before returned, from the content read.
\<close>

theorem same_name_in_batch_order:
  assumes "f \<noteq> []" and "filter (\<lambda>i. filename i = f) instructions \<noteq> []"
    and "\<forall>i\<in>set instructions. filename i \<noteq> [] \<longrightarrow> \<not> stat_fails fsys (filename i)"
    and "\<forall>i\<in>set instructions.
           filename i \<noteq> [] \<and> filename i \<noteq> f \<longrightarrow> canon fsys (filename i) \<noteq> canon fsys f"
    and "files fsys (canon fsys f) = Some fl" and "readable fl" and "utf8 fl" and "writable fl"
    and "fold_in_order py (filter (\<lambda>i. filename i = f) instructions)
           (universal_newlines (data fl)) = Inr content'"
    and "encodable content'"
  shows "map_of (instructions_by_file instructions) f =
           Some (filter (\<lambda>i. filename i = f) instructions) \<and>
         files (fst (apply_instructions py instructions fsys)) (canon fsys f) =
           Some (File True True True (write_newlines (linesep py) content')) \<and>
         snd (snd (apply_instructions py instructions fsys)) = None"
proof -
  let ?grp0 = "filter (\<lambda>i. filename i = f) instructions"
  let ?groups = "instructions_by_file instructions"
  have g: "map_of ?groups f = Some ?grp0"
    using groups_of_file[OF assms(1)] assms(2) by simp
  have k2: "\<forall>g\<in>set (map fst ?groups). \<not> stat_fails fsys g"
    and k3: "\<forall>g\<in>set (map fst ?groups). g \<noteq> f \<longrightarrow> canon fsys g \<noteq> canon fsys f"
    using assms(3,4) unfolding groups_keys by auto
  note t = process_groups_target[OF groups_distinct k2 k3, of py]
  obtain r lg where run: "apply_all py ?grp0 (universal_newlines (data fl)) = (r, lg)"
    by (cases "apply_all py ?grp0 (universal_newlines (data fl))")
  with apply_all_is_fold[of py ?grp0 "universal_newlines (data fl)"] assms(9)
  have r: "r = Inr content'" by simp
  have pg: "files (fst (process_group py f ?grp0 fsys)) (canon fsys f) =
      Some (File True True True (write_newlines (linesep py) content'))"
    using assms(1,3,5-8,10) run r assms(2)
    by (auto simp: group_defs filter_empty_conv)
  from t g pg show ?thesis by (simp add: apply_instructions_def)
qed


theorem same_name_in_batch_order_witness:
  "fold_in_order cpython
     [\<lparr>instr_type = str ''update'', filename = str ''a.py'', find = str ''X'',
       replace = str ''Y'', write_text = [], delete = []\<rparr>,
      \<lparr>instr_type = str ''update'', filename = str ''a.py'', find = str ''Y'',
       replace = str ''Z'', write_text = [], delete = []\<rparr>] (str ''X'') = Inr (str ''Z'') \<and>
   files (fst (apply_instructions cpython
     [\<lparr>instr_type = str ''update'', filename = str ''a.py'', find = str ''X'',
       replace = str ''Y'', write_text = [], delete = []\<rparr>,
      \<lparr>instr_type = str ''update'', filename = str ''a.py'', find = str ''Y'',
       replace = str ''Z'', write_text = [], delete = []\<rparr>]
     \<lparr>canon = (\<lambda>n. n), stat_fails = (\<lambda>n. False),
      files = [str ''a.py'' \<mapsto> File True True True (str ''X'')]\<rparr>)) (str ''a.py'')
   = Some (File True True True (str ''Z''))"
proof -
  let ?batch = "[\<lparr>instr_type = str ''update'', filename = str ''a.py'', find = str ''X'',
       replace = str ''Y'', write_text = [], delete = []\<rparr>,
      \<lparr>instr_type = str ''update'', filename = str ''a.py'', find = str ''Y'',
       replace = str ''Z'', write_text = [], delete = []\<rparr>]"
  let ?fl = "File True True True (str ''X'')"
  let ?fs = "\<lparr>canon = (\<lambda>n. n), stat_fails = (\<lambda>n. False),
      files = [str ''a.py'' \<mapsto> ?fl]\<rparr>"
  have run: "fold_in_order cpython ?batch (str ''X'') = Inr (str ''Z'')"
    by (simp add: eval_defs io_defs)
  have nl: "universal_newlines (str ''X'') = str ''X''" by (simp add: str_def CR_def)
  have sel: "filter (\<lambda>i. filename i = str ''a.py'') ?batch = ?batch" by simp
  have a1: "str ''a.py'' \<noteq> []" by (simp add: str_def)
  have a2: "filter (\<lambda>i. filename i = str ''a.py'') ?batch \<noteq> []" by simp
  have a3: "\<forall>i\<in>set ?batch. filename i \<noteq> [] \<longrightarrow> \<not> stat_fails ?fs (filename i)" by simp
  have a4: "\<forall>i\<in>set ?batch. filename i \<noteq> [] \<and> filename i \<noteq> str ''a.py''
      \<longrightarrow> canon ?fs (filename i) \<noteq> canon ?fs (str ''a.py'')" by simp
  have a5: "files ?fs (canon ?fs (str ''a.py'')) = Some ?fl" by simp
  have a6: "readable ?fl" "utf8 ?fl" "writable ?fl" by simp_all
  have a9: "fold_in_order cpython (filter (\<lambda>i. filename i = str ''a.py'') ?batch)
      (universal_newlines (data ?fl)) = Inr (str ''Z'')"
    using run nl sel by simp
  have a10: "encodable (str ''Z'')" by (simp add: encodable_def str_def)
  from same_name_in_batch_order[of "str ''a.py''" ?batch ?fs ?fl cpython "str ''Z''",
      OF a1 a2 a3 a4 a5 a6 a9 a10]
  have "files (fst (apply_instructions cpython ?batch ?fs)) (canon ?fs (str ''a.py''))
      = Some (File True True True (write_newlines (linesep cpython) (str ''Z'')))" by blast
  then have "files (fst (apply_instructions cpython ?batch ?fs)) (str ''a.py'')
      = Some (File True True True (str ''Z''))"
    by (simp add: write_newlines_def cpython_def str_def LF_def)
  with run show ?thesis by blast
qed

end
